theory Spec2Isabelle
  imports Complex_Main
begin

section \<open>Strings\<close>

text \<open>
  A JavaScript string is a sequence of UTF-16 code units. It is modelled by \<^typ>\<open>string\<close>,
  a \<^typ>\<open>char\<close> standing for the code unit of the same number (0 to 255). The white space
  of \<^verbatim>\<open>\s\<close> and of \<^verbatim>\<open>String.prototype.trim\<close> (WhiteSpace and LineTerminator
  of ECMAScript) in that range is TAB, LF, VT, FF, CR, SP and NBSP; the line terminators
  that \<^verbatim>\<open>^\<close> looks for under the \<^verbatim>\<open>m\<close> flag are LF and CR.
\<close>

definition is_space :: "char \<Rightarrow> bool" where
  "is_space c \<longleftrightarrow> c \<in> set [CHR 0x09, CHR 0x0A, CHR 0x0B, CHR 0x0C, CHR 0x0D, CHR 0x20, CHR 0xA0]"

definition is_lineterm :: "char \<Rightarrow> bool" where
  "is_lineterm c \<longleftrightarrow> c \<in> set [CHR 0x0A, CHR 0x0D]"

definition is_digit :: "char \<Rightarrow> bool" where
  "is_digit c \<longleftrightarrow> c \<in> set ''0123456789''"

text \<open>\<^verbatim>\<open>s.trim()\<close>\<close>

definition trim :: "string \<Rightarrow> string" where
  "trim s = rev (dropWhile is_space (rev (dropWhile is_space s)))"

text \<open>\<^verbatim>\<open>s.split('\n')\<close>: never empty, \<^verbatim>\<open>''.split('\n')\<close> is \<^verbatim>\<open>['']\<close>.\<close>

fun split_nl :: "string \<Rightarrow> string list" where
  "split_nl [] = [[]]"
| "split_nl (c # cs) =
     (if c = CHR 0x0A then [] # split_nl cs
      else (case split_nl cs of l # ls \<Rightarrow> (c # l) # ls | [] \<Rightarrow> [[c]]))"

text \<open>\<^verbatim>\<open>xs.join(sep)\<close>\<close>

fun join :: "string \<Rightarrow> string list \<Rightarrow> string" where
  "join sep [] = []"
| "join sep [x] = x"
| "join sep (x # y # ys) = x @ sep @ join sep (y # ys)"

section \<open>Numbers\<close>

text \<open>
  The numbers of this program are pull-request numbers: what \<^verbatim>\<open>Number.parseInt\<close> makes
  of a run of decimal digits. A JavaScript number is a double; those that arise here are
  the doubles whose value is a natural number, and \<^verbatim>\<open>Infinity\<close>. \<open>Finite v\<close> is the
  double of value \<open>v\<close>.
\<close>

datatype js_number = Finite nat | Infinity

text \<open>The decimal digits of a natural number.\<close>

fun string_of_nat :: "nat \<Rightarrow> string" where
  "string_of_nat n =
     (if n < 10 then [''0123456789'' ! n]
      else string_of_nat (n div 10) @ [''0123456789'' ! (n mod 10)])"

text \<open>The number of binary digits of a natural number.\<close>

fun bitlen :: "nat \<Rightarrow> nat" where
  "bitlen n = (if n = 0 then 0 else Suc (bitlen (n div 2)))"

text \<open>
  The double for a natural number: the nearest one, the one with the even significand
  of the two nearest when they are as near. A double has a significand of 53 binary
  digits, so a number below \<open>2 ^ 53\<close> is a double; one with \<open>53 + e\<close> binary digits is
  rounded to a multiple of \<open>2 ^ e\<close>; the doubles end below \<open>2 ^ 1024\<close>, what is rounded
  to \<open>2 ^ 1024\<close> or more is \<^verbatim>\<open>Infinity\<close>.
\<close>

definition to_double :: "nat \<Rightarrow> js_number" where
  "to_double v =
     (if v < 2 ^ 53 then Finite v
      else
        let e = bitlen v - 53;
            q = v div 2 ^ e;
            r = v mod 2 ^ e;
            q' = (if 2 ^ e < 2 * r \<or> (2 * r = 2 ^ e \<and> odd q) then q + 1 else q)
        in if 2 ^ 1024 \<le> q' * 2 ^ e then Infinity else Finite (q' * 2 ^ e))"

text \<open>
  \<^verbatim>\<open>Number.parseInt(s, 10)\<close> on a non-empty run of decimal digits: the double for the
  number that the digits denote. (ECMAScript lets an implementation read the digits after
  the twentieth as 0; Node reads them all, as here.)
\<close>

definition digit_val :: "char \<Rightarrow> nat" where
  "digit_val c = of_char c - 48"

definition digits_value :: "string \<Rightarrow> nat" where
  "digits_value s = foldl (\<lambda>acc c. 10 * acc + digit_val c) 0 s"

definition parseInt10 :: "string \<Rightarrow> js_number" where
  "parseInt10 s = to_double (digits_value s)"

text \<open>
  The template literal \<^verbatim>\<open>`${n}`\<close> on a number, which is \<^verbatim>\<open>Number.prototype.toString\<close>
  in radix 10. A double is written with the fewest significant digits that, followed by
  zeros, still denote a number whose double it is, and with the nearest such number when
  there are several (on a tie the one whose last significant digit is even).
  \<open>shortest v p\<close> looks for that number among the multiples of \<open>p\<close>, then of \<open>p div 10\<close>,
  and so on; of the multiples of \<open>p\<close> only the two around \<open>v\<close> are to be tried, the nearer
  one first. A number of at most 21 digits is written in full, a longer one with an
  exponent.
\<close>

fun shortest :: "nat \<Rightarrow> nat \<Rightarrow> nat" where
  "shortest v p =
     (if p \<le> 1 then v
      else
        let lo = (v div p) * p;
            hi = lo + p;
            lo_first = (v - lo < hi - v \<or> (v - lo = hi - v \<and> even (v div p)));
            a = (if lo_first then lo else hi);
            b = (if lo_first then hi else lo)
        in if to_double a = Finite v then a
           else if to_double b = Finite v then b
           else shortest v (p div 10))"

declare string_of_nat.simps [simp del] bitlen.simps [simp del] shortest.simps [simp del]

definition strip_zeros :: "string \<Rightarrow> string" where
  "strip_zeros ds = rev (dropWhile (\<lambda>c. c = CHR ''0'') (rev ds))"

definition Number_toString :: "js_number \<Rightarrow> string" where
  "Number_toString x =
     (case x of
        Infinity \<Rightarrow> ''Infinity''
      | Finite v \<Rightarrow>
          let y = shortest v (10 ^ (length (string_of_nat v) - 1));
              n = length (string_of_nat y);
              ds = strip_zeros (string_of_nat y)
          in if n \<le> 21 then string_of_nat y
             else (if length ds = 1 then ds else hd ds # ''.'' @ tl ds)
                  @ ''e+'' @ string_of_nat (n - 1))"

section \<open>Regular expressions\<close>

text \<open>
  The regular expressions of the source use character classes, literals, greedy
  quantifiers on a single character class, alternation, groups and the assertions
  \<^verbatim>\<open>^\<close> and \<^verbatim>\<open>$\<close>. A matcher state is the input already passed (reversed), the input
  still ahead, and the captures made so far (the latest first). \<open>ms\<close> gives the states in
  which a match of the pattern can end, in the order in which a backtracking matcher
  tries them: the first alternative before the second, the longest repetition first.
\<close>

datatype cclass = Ch char | Space | NonSpace | Digit | NotSlashSpace

datatype rx =
    Eps
  | Atom cclass
  | Lit string
  | Star cclass
  | Plus cclass
  | Opt cclass
  | Seq rx rx
  | Alt rx rx
  | Bol
  | Eol
  | Grp nat rx

record flags =
  ignoreCase :: bool
  multiline :: bool

text \<open>
  Canonicalize of ECMAScript (without the \<^verbatim>\<open>u\<close> flag), as far as the patterns need it:
  their literal characters are ASCII, and a code unit outside ASCII is never
  canonicalized to an ASCII one.
\<close>

definition canonicalize :: "char \<Rightarrow> char" where
  "canonicalize c =
     (case map_of (zip ''abcdefghijklmnopqrstuvwxyz'' ''ABCDEFGHIJKLMNOPQRSTUVWXYZ'') c of
        Some u \<Rightarrow> u | None \<Rightarrow> c)"

definition char_eq :: "flags \<Rightarrow> char \<Rightarrow> char \<Rightarrow> bool" where
  "char_eq f a x \<longleftrightarrow> (if ignoreCase f then canonicalize x = canonicalize a else x = a)"

fun in_class :: "flags \<Rightarrow> cclass \<Rightarrow> char \<Rightarrow> bool" where
  "in_class f (Ch a) x = char_eq f a x"
| "in_class f Space x = is_space x"
| "in_class f NonSpace x = (\<not> is_space x)"
| "in_class f Digit x = is_digit x"
| "in_class f NotSlashSpace x = (x \<noteq> CHR ''/'' \<and> \<not> is_space x)"

type_synonym mstate = "string \<times> string \<times> (nat \<times> string) list"

fun one :: "flags \<Rightarrow> cclass \<Rightarrow> mstate \<Rightarrow> mstate list" where
  "one f c (b, [], cs) = []"
| "one f c (b, x # xs, cs) = (if in_class f c x then [(x # b, xs, cs)] else [])"

fun lit :: "flags \<Rightarrow> string \<Rightarrow> mstate \<Rightarrow> mstate list" where
  "lit f [] st = [st]"
| "lit f (a # w) (b, [], cs) = []"
| "lit f (a # w) (b, x # xs, cs) = (if char_eq f a x then lit f w (x # b, xs, cs) else [])"

fun star :: "flags \<Rightarrow> cclass \<Rightarrow> mstate \<Rightarrow> mstate list" where
  "star f c (b, [], cs) = [(b, [], cs)]"
| "star f c (b, x # xs, cs) =
     (if in_class f c x then star f c (x # b, xs, cs) else []) @ [(b, x # xs, cs)]"

fun ms :: "flags \<Rightarrow> rx \<Rightarrow> mstate \<Rightarrow> mstate list" where
  "ms f Eps st = [st]"
| "ms f (Atom c) st = one f c st"
| "ms f (Lit w) st = lit f w st"
| "ms f (Star c) st = star f c st"
| "ms f (Plus c) st = concat (map (star f c) (one f c st))"
| "ms f (Opt c) st = one f c st @ [st]"
| "ms f (Seq r1 r2) st = concat (map (ms f r2) (ms f r1 st))"
| "ms f (Alt r1 r2) st = ms f r1 st @ ms f r2 st"
| "ms f Bol (b, xs, cs) =
     (if b = [] \<or> (multiline f \<and> is_lineterm (hd b)) then [(b, xs, cs)] else [])"
| "ms f Eol (b, xs, cs) =
     (if xs = [] \<or> (multiline f \<and> is_lineterm (hd xs)) then [(b, xs, cs)] else [])"
| "ms f (Grp n r) (b, xs, cs) =
     map (\<lambda>(b', xs', cs'). (b', xs', (n, take (length xs - length xs') xs) # cs'))
       (ms f r (b, xs, cs))"

definition seqs :: "rx list \<Rightarrow> rx" where
  "seqs rs = foldr Seq rs Eps"

text \<open>
  \<^verbatim>\<open>RegExp.prototype.exec\<close> from a position: the first position, from left to right, at
  which the pattern matches, with the text skipped before it and the state at the end
  of the match.
\<close>

fun exec_from :: "flags \<Rightarrow> rx \<Rightarrow> string \<Rightarrow> string \<Rightarrow> (string \<times> mstate) option" where
  "exec_from f r b [] = (case ms f r (b, [], []) of st # _ \<Rightarrow> Some ([], st) | [] \<Rightarrow> None)"
| "exec_from f r b (x # xs) =
     (case ms f r (b, x # xs, []) of
        st # _ \<Rightarrow> Some ([], st)
      | [] \<Rightarrow> map_option (\<lambda>(sk, st). (x # sk, st)) (exec_from f r (x # b) xs))"

definition exec :: "flags \<Rightarrow> rx \<Rightarrow> string \<Rightarrow> (string \<times> mstate) option" where
  "exec f r s = exec_from f r [] s"

text \<open>\<^verbatim>\<open>regex.test(s)\<close>\<close>

definition test :: "flags \<Rightarrow> rx \<Rightarrow> string \<Rightarrow> bool" where
  "test f r s \<longleftrightarrow> exec f r s \<noteq> None"

text \<open>\<^verbatim>\<open>s.match(regex)[n]\<close> of a match: the capture of group \<open>n\<close>, if the group took part.\<close>

definition group :: "mstate \<Rightarrow> nat \<Rightarrow> string option" where
  "group st n = map_of (snd (snd st)) n"

text \<open>\<^verbatim>\<open>s.replace(regex, '')\<close> without the \<^verbatim>\<open>g\<close> flag: the first match is removed.\<close>

definition replace_first :: "flags \<Rightarrow> rx \<Rightarrow> string \<Rightarrow> string" where
  "replace_first f r s =
     (case exec f r s of None \<Rightarrow> s | Some (sk, (b, rest, cs)) \<Rightarrow> sk @ rest)"

text \<open>
  \<^verbatim>\<open>s.replace(regex, '')\<close> with the \<^verbatim>\<open>g\<close> flag: every match is removed, each search
  starting where the match before it ended, one character further after an empty match.
\<close>

function replace_all_from :: "flags \<Rightarrow> rx \<Rightarrow> string \<Rightarrow> string \<Rightarrow> string" where
  "replace_all_from f r b xs =
     (case exec_from f r b xs of
        None \<Rightarrow> xs
      | Some (sk, (b', rest, cs)) \<Rightarrow>
          sk @ (if length rest < length xs - length sk then replace_all_from f r b' rest
                else (case drop (length sk) xs of
                        [] \<Rightarrow> []
                      | y # ys \<Rightarrow> y # replace_all_from f r (y # b') ys)))"
  by pat_completeness auto
termination
proof (relation "measure (\<lambda>(f, r, b, xs). length xs)", goal_cases)
  case 1
  show ?case by simp
next
  case (2 f r b xs x2 sk st b' rest' rest cs)
  then show ?case by simp
next
  case (3 f r b xs x2 sk st b' rest' rest cs y ys)
  then have "Suc (length ys) = length xs - length sk"
    by (metis length_Cons length_drop)
  then show ?case by simp
qed

definition replace_all :: "flags \<Rightarrow> rx \<Rightarrow> string \<Rightarrow> string" where
  "replace_all f r s = replace_all_from f r [] s"

declare replace_all_from.simps [simp del]

section \<open>Values, options and errors\<close>

text \<open>
  The options arrive untyped (\<^verbatim>\<open>Record<string, any> | null\<close>): a JavaScript value. Of a
  number only its being zero or \<^verbatim>\<open>NaN\<close> is looked at; objects, arrays and functions are
  \<open>JObject\<close> with the list of their own properties.
\<close>

datatype js_value =
    JUndefined
  | JNull
  | JBoolean bool
  | JNumber real
  | JNaN
  | JString string
  | JObject "(string \<times> js_value) list"

fun truthy :: "js_value \<Rightarrow> bool" where
  "truthy JUndefined = False"
| "truthy JNull = False"
| "truthy (JBoolean b) = b"
| "truthy (JNumber x) = (x \<noteq> 0)"
| "truthy JNaN = False"
| "truthy (JString s) = (s \<noteq> [])"
| "truthy (JObject fs) = True"

text \<open>\<^verbatim>\<open>v.k\<close> on a value that is neither \<^verbatim>\<open>null\<close> nor \<^verbatim>\<open>undefined\<close>.\<close>

fun get_prop :: "js_value \<Rightarrow> string \<Rightarrow> js_value" where
  "get_prop (JObject fs) k = (case map_of fs k of Some v \<Rightarrow> v | None \<Rightarrow> JUndefined)"
| "get_prop v k = JUndefined"

text \<open>Truthiness of a \<^verbatim>\<open>string | undefined\<close> and of a \<^verbatim>\<open>number | undefined\<close>.\<close>

definition str_truthy :: "string option \<Rightarrow> bool" where
  "str_truthy s \<longleftrightarrow> (case s of None \<Rightarrow> False | Some x \<Rightarrow> x \<noteq> [])"

definition num_truthy :: "js_number option \<Rightarrow> bool" where
  "num_truthy n \<longleftrightarrow> (case n of None \<Rightarrow> False | Some x \<Rightarrow> x \<noteq> Finite 0)"

datatype js_error = Error (message: string)

definition MissingRepoError :: js_error where
  \<open>MissingRepoError = Error (''Please provide a repo for this changelog generator.\<newline>'' @
     ''"example": ["changesets-changelog-github-local", { "repo": "org/repo" }]'')\<close>

definition InvalidRepoFormatError :: js_error where
  \<open>InvalidRepoFormatError = Error ''Invalid repo format. Please use the format "org/repo"''\<close>

record valid_options =
  repo :: string

section \<open>The utilities\<close>

definition getRepoUrl :: "valid_options \<Rightarrow> string" where
  "getRepoUrl options = ''https://github.com/'' @ repo options"

definition getCommitUrl :: "valid_options \<Rightarrow> string \<Rightarrow> string" where
  "getCommitUrl options commitHash = getRepoUrl options @ ''/commit/'' @ commitHash"

definition getPrUrl :: "valid_options \<Rightarrow> js_number \<Rightarrow> string" where
  "getPrUrl options prNumber = getRepoUrl options @ ''/pull/'' @ Number_toString prNumber"

definition getShortSha :: "string \<Rightarrow> string" where
  "getShortSha commitHash = take 7 commitHash"

definition no_flags :: flags where
  "no_flags = \<lparr>ignoreCase = False, multiline = False\<rparr>"

definition flags_im :: flags where
  "flags_im = \<lparr>ignoreCase = True, multiline = True\<rparr>"

text \<open>\<^verbatim>\<open>/^[^/\s]+\/[^/\s]+$/\<close>\<close>

definition ORG_REPO_REGEX :: rx where
  "ORG_REPO_REGEX = seqs [Bol, Plus NotSlashSpace, Lit ''/'', Plus NotSlashSpace, Eol]"

text \<open>
  \<open>validate\<close> throws or returns nothing, after which the options are used as
  \<^verbatim>\<open>ValidOptions\<close>; the model returns the error or the options so narrowed.
\<close>

definition validate :: "js_value \<Rightarrow> js_error + valid_options" where
  "validate options =
     (if \<not> truthy options \<or> \<not> truthy (get_prop options ''repo'') then Inl MissingRepoError
      else (case get_prop options ''repo'' of
              JString s \<Rightarrow>
                if \<not> test no_flags ORG_REPO_REGEX s then Inl InvalidRepoFormatError
                else Inr \<lparr>repo = s\<rparr>
            | _ \<Rightarrow> Inl InvalidRepoFormatError))"

text \<open>
  \<^verbatim>\<open>/^\s*(?:pr|pull|pull\s+request):\s*#?(\d+)/im\<close>,
  \<^verbatim>\<open>/^\s*commit:\s*(\S+)/im\<close> and \<^verbatim>\<open>/^\s*(?:author|user):\s*@?(\S+)/gim\<close>
\<close>

definition pr_regex :: rx where
  "pr_regex = seqs [Bol, Star Space,
     Alt (Lit ''pr'') (Alt (Lit ''pull'') (seqs [Lit ''pull'', Plus Space, Lit ''request''])),
     Lit '':'', Star Space, Opt (Ch CHR ''#''), Grp 1 (Plus Digit)]"

definition commit_regex :: rx where
  "commit_regex = seqs [Bol, Star Space, Lit ''commit'', Lit '':'', Star Space, Grp 1 (Plus NonSpace)]"

definition author_regex :: rx where
  "author_regex = seqs [Bol, Star Space, Alt (Lit ''author'') (Lit ''user''),
     Lit '':'', Star Space, Opt (Ch CHR ''@''), Grp 1 (Plus NonSpace)]"

definition cleanSummary :: "string \<Rightarrow> string" where
  "cleanSummary summary =
     trim (replace_all flags_im author_regex
       (replace_first flags_im commit_regex
         (replace_first flags_im pr_regex summary)))"

text \<open>\<^verbatim>\<open>/\(#(\d+)\)$|#(\d+)\s*$/\<close>\<close>

definition pr_number_regex :: rx where
  "pr_number_regex =
     Alt (seqs [Lit ''(#'', Grp 1 (Plus Digit), Lit '')'', Eol])
         (seqs [Lit ''#'', Grp 2 (Plus Digit), Star Space, Eol])"

text \<open>\<^verbatim>\<open>a || b\<close> on two \<^verbatim>\<open>string | undefined\<close>\<close>

definition or_else :: "string option \<Rightarrow> string option \<Rightarrow> string option" where
  "or_else a b = (if str_truthy a then a else b)"

definition getPrNumber :: "string option \<Rightarrow> js_number option" where
  "getPrNumber commitMessage =
     (if \<not> str_truthy commitMessage then None
      else
        let firstLine = trim (hd (split_nl (the commitMessage))) in
        (case exec no_flags pr_number_regex firstLine of
           None \<Rightarrow> None
         | Some (sk, match) \<Rightarrow>
             let prNumber = or_else (group match 1) (group match 2) in
             if str_truthy prNumber then Some (parseInt10 (the prNumber)) else None))"

definition getSuffix :: "js_number option \<Rightarrow> string option \<Rightarrow> valid_options \<Rightarrow> string" where
  "getSuffix pr commitSha options =
     (if num_truthy pr then
        '' ([#'' @ Number_toString (the pr) @ '']('' @ getPrUrl options (the pr) @ ''))''
      else if str_truthy commitSha then
        '' ([`'' @ getShortSha (the commitSha) @ ''`]('' @ getCommitUrl options (the commitSha) @ ''))''
      else '''')"

section \<open>The local repository\<close>

text \<open>
  The repository is outside the program (\<^verbatim>\<open>@napi-rs/simple-git\<close>): what
  \<^verbatim>\<open>Repository.discover\<close>, \<^verbatim>\<open>isShallow\<close>, \<^verbatim>\<open>findCommit\<close> and \<^verbatim>\<open>message\<close> answer is
  given by an environment, each of them either throwing (\<open>Inl\<close>) or returning. The calls
  made and the warnings written are recorded as a list of events, in order.
\<close>

datatype git_commit = Commit (commit_message: "js_error + string option")

record repository =
  isShallow :: "js_error + bool"
  findCommit :: "string \<Rightarrow> js_error + git_commit option"

record environment =
  discover :: "js_error + repository"
  GITHUB_ACTION :: "string option"

datatype event =
    CallDiscover
  | CallIsShallow
  | CallFindCommit string
  | CallMessage
  | ConsoleWarn string "js_error option"

definition shallow_warning_action :: string where
  "shallow_warning_action = ''The repository is shallow cloned, so PR links may not work. '' @
     ''See https://github.com/actions/checkout#fetch-all-history-for-all-tags-and-branches '' @
     ''to fetch all the history.''"

definition shallow_warning :: string where
  "shallow_warning = ''The repository is shallow cloned, so PR links may not work.''"

definition getRepository :: "environment \<Rightarrow> event list \<times> (js_error + repository)" where
  "getRepository env =
     (case discover env of
        Inl error \<Rightarrow>
          ([CallDiscover], Inl (Error (''Repository.discover failed: '' @ message error)))
      | Inr repository \<Rightarrow>
          (case isShallow repository of
             Inl error \<Rightarrow>
               ([CallDiscover, CallIsShallow],
                Inl (Error (''Repository.discover failed: '' @ message error)))
           | Inr shallow \<Rightarrow>
               ([CallDiscover, CallIsShallow] @
                (if shallow then
                   [ConsoleWarn (if str_truthy (GITHUB_ACTION env) then shallow_warning_action
                                 else shallow_warning) None]
                 else []),
                Inr repository)))"

section \<open>The changelog functions\<close>

datatype version_type = Major | Minor | Patch | NoBump

record changeset =
  changeset_id :: string
  summary :: string
  releases :: "(string \<times> version_type) list"
  commit :: "string option"

record mod_comp =
  name :: string
  bump :: version_type
  oldVersion :: string
  newVersion :: string
  changeset_ids :: "string list"
  dir :: string

text \<open>\<^verbatim>\<open>xs.filter(Boolean)\<close> on a list of \<^verbatim>\<open>string | null\<close>\<close>

definition filter_Boolean :: "string option list \<Rightarrow> string list" where
  "filter_Boolean xs = map the (filter str_truthy xs)"

definition getDependencyReleaseLine ::
  "changeset list \<Rightarrow> mod_comp list \<Rightarrow> js_value \<Rightarrow> js_error + string" where
  "getDependencyReleaseLine changesets dependenciesUpdated options =
     (case validate options of
        Inl error \<Rightarrow> Inl error
      | Inr opts \<Rightarrow>
          if length dependenciesUpdated = 0 then Inr ''''
          else
            let changesetLink = ''- Updated dependencies ['' @
                  join '', '' (filter_Boolean (map (\<lambda>c.
                    if str_truthy (commit c) then
                      Some (''[`'' @ getShortSha (the (commit c)) @ ''`]('' @
                            getCommitUrl opts (the (commit c)) @ '')'')
                    else None) changesets)) @ '']:'';
                updatedDependenciesList =
                  map (\<lambda>d. ''  - '' @ name d @ ''@'' @ newVersion d) dependenciesUpdated
            in Inr (join ''\<newline>'' (changesetLink # updatedDependenciesList)))"

text \<open>
  The \<^verbatim>\<open>try\<close> block of \<^verbatim>\<open>getReleaseLine\<close>: the first line of the message of the commit,
  trimmed, or nothing; what is thrown inside is caught and written as a warning.
\<close>

definition resolveCommitMsg :: "repository \<Rightarrow> string option \<Rightarrow> event list \<times> string option" where
  "resolveCommitMsg repository c =
     (if str_truthy c then
        (case findCommit repository (the c) of
           Inl error \<Rightarrow>
             ([CallFindCommit (the c),
               ConsoleWarn (''Failed to get commit message for '' @ the c @ '':'') (Some error)],
              None)
         | Inr None \<Rightarrow> ([CallFindCommit (the c)], None)
         | Inr (Some found) \<Rightarrow>
             (case commit_message found of
                Inl error \<Rightarrow>
                  ([CallFindCommit (the c), CallMessage,
                    ConsoleWarn (''Failed to get commit message for '' @ the c @ '':'') (Some error)],
                   None)
              | Inr commitMessage \<Rightarrow>
                  ([CallFindCommit (the c), CallMessage],
                   if str_truthy commitMessage
                   then Some (trim (hd (split_nl (the commitMessage)))) else None)))
      else ([], None))"

text \<open>The arrow function \<^verbatim>\<open>l => `  ${l}`\<close>\<close>

definition indent :: "string \<Rightarrow> string" where
  "indent l = ''  '' @ l"

definition getReleaseLine ::
  "environment \<Rightarrow> changeset \<Rightarrow> version_type \<Rightarrow> js_value \<Rightarrow> event list \<times> (js_error + string)" where
  "getReleaseLine env cs bump_type options =
     (case validate options of
        Inl error \<Rightarrow> ([], Inl error)
      | Inr opts \<Rightarrow>
          (case getRepository env of
             (ev, Inl error) \<Rightarrow> (ev, Inl error)
           | (ev, Inr repository) \<Rightarrow>
               let cleaned = cleanSummary (summary cs);
                   (ev', commitMsg) = resolveCommitMsg repository (commit cs);
                   firstLine = hd (split_nl cleaned);
                   restOfLines = tl (split_nl cleaned);
                   suffix = getSuffix (getPrNumber commitMsg) (commit cs) opts
               in (ev @ ev',
                   Inr (''\<newline>- '' @ firstLine @ suffix @ ''\<newline>'' @
                        join ''\<newline>'' (map indent restOfLines)))))"

section \<open>What a pattern matches\<close>

text \<open>
  The strings that a pattern matches between the text before and the text after, stated
  on the pattern: the matcher reaches exactly these (lemma \<open>ms_den\<close>).
\<close>

fun den :: "flags \<Rightarrow> rx \<Rightarrow> string \<Rightarrow> string \<Rightarrow> string \<Rightarrow> bool" where
  "den f Eps before m after \<longleftrightarrow> m = []"
| "den f (Atom c) before m after \<longleftrightarrow> (\<exists>x. m = [x] \<and> in_class f c x)"
| "den f (Lit w) before m after \<longleftrightarrow> list_all2 (char_eq f) w m"
| "den f (Star c) before m after \<longleftrightarrow> list_all (in_class f c) m"
| "den f (Plus c) before m after \<longleftrightarrow> m \<noteq> [] \<and> list_all (in_class f c) m"
| "den f (Opt c) before m after \<longleftrightarrow> m = [] \<or> (\<exists>x. m = [x] \<and> in_class f c x)"
| "den f (Seq r1 r2) before m after \<longleftrightarrow>
     (\<exists>m1 m2. m = m1 @ m2 \<and> den f r1 before m1 (m2 @ after) \<and> den f r2 (before @ m1) m2 after)"
| "den f (Alt r1 r2) before m after \<longleftrightarrow> den f r1 before m after \<or> den f r2 before m after"
| "den f Bol before m after \<longleftrightarrow>
     m = [] \<and> (before = [] \<or> multiline f \<and> is_lineterm (last before))"
| "den f Eol before m after \<longleftrightarrow>
     m = [] \<and> (after = [] \<or> multiline f \<and> is_lineterm (hd after))"
| "den f (Grp n r) before m after \<longleftrightarrow> den f r before m after"

section \<open>The summary cleaner, as specified\<close>

text \<open>
  The words of the specification, to compare \<open>cleanSummary\<close> with. A position is the
  start of a line when nothing, or a line terminator, stands before it. A prefix is
  optional white space, a keyword in any letter case, a colon, optional white space, an
  optional marker and a token: digits after \<open>pr\<close>, \<open>pull\<close> and \<open>pull request\<close>,
  characters other than white space after \<open>commit\<close>, \<open>author\<close> and \<open>user\<close>.
\<close>

definition line_start :: "string \<Rightarrow> bool" where
  "line_start before \<longleftrightarrow> before = [] \<or> is_lineterm (last before)"

definition keyword :: "string \<Rightarrow> string \<Rightarrow> bool" where
  "keyword w kw \<longleftrightarrow> map canonicalize kw = map canonicalize w"

definition pr_keyword :: "string \<Rightarrow> bool" where
  "pr_keyword kw \<longleftrightarrow>
     keyword ''pr'' kw \<or> keyword ''pull'' kw \<or>
     (\<exists>k1 sp k2. kw = k1 @ sp @ k2 \<and> keyword ''pull'' k1 \<and> sp \<noteq> [] \<and> list_all is_space sp \<and>
        keyword ''request'' k2)"

definition pr_prefix :: "string \<Rightarrow> bool" where
  "pr_prefix m \<longleftrightarrow>
     (\<exists>ws kw ws' h ds. m = ws @ kw @ '':'' @ ws' @ h @ ds \<and> list_all is_space ws \<and>
        pr_keyword kw \<and> list_all is_space ws' \<and> (h = [] \<or> h = ''#'') \<and>
        ds \<noteq> [] \<and> list_all is_digit ds)"

definition commit_prefix :: "string \<Rightarrow> bool" where
  "commit_prefix m \<longleftrightarrow>
     (\<exists>ws kw ws' tok. m = ws @ kw @ '':'' @ ws' @ tok \<and> list_all is_space ws \<and>
        keyword ''commit'' kw \<and> list_all is_space ws' \<and>
        tok \<noteq> [] \<and> list_all (\<lambda>c. \<not> is_space c) tok)"

definition author_prefix :: "string \<Rightarrow> bool" where
  "author_prefix m \<longleftrightarrow>
     (\<exists>ws kw ws' h tok. m = ws @ kw @ '':'' @ ws' @ h @ tok \<and> list_all is_space ws \<and>
        (keyword ''author'' kw \<or> keyword ''user'' kw) \<and> list_all is_space ws' \<and>
        (h = [] \<or> h = ''@'') \<and> tok \<noteq> [] \<and> list_all (\<lambda>c. \<not> is_space c) tok)"

text \<open>
  An occurrence of a prefix in \<open>s\<close> (which follows the text \<open>before\<close>) starts at the
  start of a line; the first occurrence is the leftmost. The token of an occurrence ends
  where \<open>post\<close> begins: it is the longest one when \<open>post\<close> does not go on with a token
  character. \<open>removes_first\<close> takes the first occurrence out of \<open>s\<close>, \<open>removes_each\<close>
  every occurrence, from left to right, each search starting after the occurrence taken
  out before.
\<close>

definition occurrence ::
  "(string \<Rightarrow> bool) \<Rightarrow> string \<Rightarrow> string \<Rightarrow> string \<Rightarrow> string \<Rightarrow> string \<Rightarrow> bool" where
  "occurrence P before s pre m post \<longleftrightarrow> s = pre @ m @ post \<and> line_start (before @ pre) \<and> P m"

definition first_occurrence ::
  "(string \<Rightarrow> bool) \<Rightarrow> string \<Rightarrow> string \<Rightarrow> string \<Rightarrow> string \<Rightarrow> string \<Rightarrow> bool" where
  "first_occurrence P before s pre m post \<longleftrightarrow>
     occurrence P before s pre m post \<and>
     (\<forall>pre' m' post'. occurrence P before s pre' m' post' \<longrightarrow> length pre \<le> length pre')"

definition ends_token :: "(char \<Rightarrow> bool) \<Rightarrow> string \<Rightarrow> bool" where
  "ends_token T post \<longleftrightarrow> post = [] \<or> \<not> T (hd post)"

definition removes_first ::
  "(string \<Rightarrow> bool) \<Rightarrow> (char \<Rightarrow> bool) \<Rightarrow> string \<Rightarrow> string \<Rightarrow> bool" where
  "removes_first P T s s' \<longleftrightarrow>
     (if \<exists>pre m post. occurrence P [] s pre m post
      then \<exists>pre m post. first_occurrence P [] s pre m post \<and> ends_token T post \<and> s' = pre @ post
      else s' = s)"

inductive removes_each ::
  "(string \<Rightarrow> bool) \<Rightarrow> (char \<Rightarrow> bool) \<Rightarrow> string \<Rightarrow> string \<Rightarrow> string \<Rightarrow> bool"
  for P :: "string \<Rightarrow> bool" and T :: "char \<Rightarrow> bool" where
  none: "\<not> (\<exists>pre m post. occurrence P before s pre m post) \<Longrightarrow> removes_each P T before s s"
| step: "first_occurrence P before s pre m post \<Longrightarrow> ends_token T post \<Longrightarrow>
         removes_each P T (before @ pre @ m) post out \<Longrightarrow>
         removes_each P T before s (pre @ out)"

text \<open>
  A pattern implements a kind of prefix when it matches, at the start of a line, exactly
  the prefixes of that kind; it is greedy when its first match ends a token.
\<close>

definition implements :: "flags \<Rightarrow> rx \<Rightarrow> (string \<Rightarrow> bool) \<Rightarrow> bool" where
  "implements f r P \<longleftrightarrow>
     (\<forall>b xs b' rest cs. (b', rest, cs) \<in> set (ms f r (b, xs, [])) \<longrightarrow>
        line_start (rev b) \<and> (\<exists>m. xs = m @ rest \<and> P m)) \<and>
     (\<forall>b m post. line_start (rev b) \<and> P m \<longrightarrow> ms f r (b, m @ post, []) \<noteq> []) \<and>
     (\<forall>m. P m \<longrightarrow> m \<noteq> [])"

definition greedy_end :: "flags \<Rightarrow> (char \<Rightarrow> bool) \<Rightarrow> rx \<Rightarrow> bool" where
  "greedy_end f T r \<longleftrightarrow>
     (\<forall>st. ms f r st \<noteq> [] \<longrightarrow> ends_token T (fst (snd (hd (ms f r st)))))"

section \<open>Properties of the numbers\<close>

lemma bitlen_bounds: "0 < n \<Longrightarrow> 2 ^ (bitlen n - 1) \<le> n \<and> n < 2 ^ bitlen n"
proof (induction n rule: bitlen.induct)
  case (1 n)
  show ?case
  proof (cases "n div 2 = 0")
    case True
    with 1(2) have "n = 1" by linarith
    then show ?thesis by (simp add: bitlen.simps)
  next
    case False
    then have pos: "0 < n div 2" by simp
    from 1(1) [OF _ pos] 1(2) have ih: "2 ^ (bitlen (n div 2) - 1) \<le> n div 2" "n div 2 < 2 ^ bitlen (n div 2)"
      by simp_all
    have b: "bitlen n = Suc (bitlen (n div 2))"
      using 1(2) by (subst bitlen.simps) simp
    have bp: "0 < bitlen (n div 2)"
      using pos by (subst bitlen.simps) simp
    then obtain k where k: "bitlen (n div 2) = Suc k"
      by (cases "bitlen (n div 2)") simp_all
    have n: "2 * (n div 2) \<le> n" "n < 2 * (n div 2) + 2"
      by linarith+
    from ih have "2 * 2 ^ k \<le> 2 * (n div 2)" "2 * (n div 2) + 2 \<le> 2 * (2 * 2 ^ k)"
      unfolding k by simp_all
    with n have "2 * 2 ^ k \<le> n" "n < 2 * (2 * 2 ^ k)"
      by linarith+
    then show ?thesis
      unfolding b k by simp
  qed
qed

lemma to_double_large:
  assumes "2 ^ 53 \<le> y" and "to_double y = Finite w"
  shows "2 ^ 53 \<le> w"
proof -
  define e where "e = bitlen y - 53"
  define q where "q = y div 2 ^ e"
  define q' where "q' = (if 2 ^ e < 2 * (y mod 2 ^ e) \<or> (2 * (y mod 2 ^ e) = 2 ^ e \<and> odd q) then q + 1 else q)"
  have ypos: "0 < y"
    using assms(1) by (simp add: order.strict_trans2 [of 0 "2 ^ 53"])
  from bitlen_bounds [OF ypos] have bb: "2 ^ (bitlen y - 1) \<le> y" "y < 2 ^ bitlen y"
    by simp_all
  from assms(1) bb(2) have "(2::nat) ^ 53 < 2 ^ bitlen y"
    by (rule order.strict_trans1)
  then have bl: "53 < bitlen y"
    by (subst (asm) power_strict_increasing_iff) simp_all
  then have e: "bitlen y - 1 = 52 + e" "1 \<le> e"
    by (simp_all add: e_def)
  have "(2::nat) ^ 52 * 2 ^ e \<le> y"
    using bb(1) unfolding e by (simp add: power_add)
  then have "2 ^ 52 \<le> q"
    unfolding q_def by (simp add: less_eq_div_iff_mult_less_eq)
  then have "2 ^ 52 \<le> q'"
    by (simp add: q'_def)
  then have "(2::nat) ^ 52 * 2 ^ e \<le> q' * 2 ^ e"
    by simp
  moreover have "(2::nat) ^ 53 \<le> 2 ^ 52 * 2 ^ e"
  proof -
    have "(2::nat) ^ 1 \<le> 2 ^ e"
      using e(2) by (intro power_increasing) simp_all
    then show ?thesis by simp
  qed
  ultimately have "2 ^ 53 \<le> q' * 2 ^ e"
    by (rule order.trans [rotated])
  moreover have "w = q' * 2 ^ e"
  proof -
    have nlt: "\<not> y < 2 ^ 53"
      using assms(1) by (simp only: not_less)
    have td: "to_double y = (if 2 ^ 1024 \<le> q' * 2 ^ e then Infinity else Finite (q' * 2 ^ e))"
      unfolding to_double_def Let_def q'_def q_def e_def using nlt by (simp only: if_False)
    show ?thesis
    proof (cases "(2::nat) ^ 1024 \<le> q' * 2 ^ e")
      case True
      with assms(2) show ?thesis
        unfolding td by (simp only: if_True js_number.distinct)
    next
      case False
      with assms(2) show ?thesis
        unfolding td by (simp only: if_False js_number.inject)
    qed
  qed
  ultimately show ?thesis by simp
qed

lemma to_double_safe:
  assumes "v < 2 ^ 53" and "to_double y = Finite v"
  shows "y = v"
proof (cases "y < 2 ^ 53")
  case True
  with assms(2) show ?thesis by (simp add: to_double_def)
next
  case False
  then have "2 ^ 53 \<le> y" by simp
  from to_double_large [OF this assms(2)] assms(1) show ?thesis by simp
qed

lemma shortest_safe: "v < 2 ^ 53 \<Longrightarrow> shortest v p = v"
proof (induction v p rule: shortest.induct)
  case (1 v p)
  show ?case
  proof (cases "p \<le> 1")
    case True
    then show ?thesis by (subst shortest.simps) simp
  next
    case False
    define lo where "lo = (v div p) * p"
    define hi where "hi = lo + p"
    define lo_first where "lo_first \<longleftrightarrow> v - lo < hi - v \<or> (v - lo = hi - v \<and> even (v div p))"
    define a where "a = (if lo_first then lo else hi)"
    define b where "b = (if lo_first then hi else lo)"
    have unfold: "shortest v p =
        (if to_double a = Finite v then a
         else if to_double b = Finite v then b
         else shortest v (p div 10))"
      using False
      by (subst shortest.simps) (simp only: Let_def lo_def hi_def lo_first_def a_def b_def if_False)
    consider (a) "to_double a = Finite v"
      | (b) "to_double a \<noteq> Finite v" "to_double b = Finite v"
      | (none) "to_double a \<noteq> Finite v" "to_double b \<noteq> Finite v"
      by blast
    then show ?thesis
    proof cases
      case a
      from to_double_safe [OF 1(2) this] a show ?thesis
        unfolding unfold by simp
    next
      case b
      from to_double_safe [OF 1(2) b(2)] b show ?thesis
        unfolding unfold by simp
    next
      case none
      from 1(1) [OF False lo_def hi_def lo_first_def a_def b_def none 1(2)] none show ?thesis
        unfolding unfold by simp
    qed
  qed
qed

lemma Number_toString_safe:
  assumes "v < 2 ^ 53"
  shows "Number_toString (Finite v) = string_of_nat v"
proof -
  have len: "length (string_of_nat n) \<le> k" if "n < 10 ^ k" "0 < k" for n k
    using that
  proof (induction n arbitrary: k rule: string_of_nat.induct)
    case (1 n)
    show ?case
    proof (cases "n < 10")
      case True
      with 1(3) show ?thesis by (subst string_of_nat.simps) simp
    next
      case False
      obtain k' where k': "k = Suc k'"
        using 1(3) by (cases k) simp_all
      have "0 < k'"
        using False 1(2) unfolding k' by (cases k') simp_all
      moreover have "n div 10 < 10 ^ k'"
        using 1(2) unfolding k' by (simp add: less_mult_imp_div_less mult.commute)
      ultimately have "length (string_of_nat (n div 10)) \<le> k'"
        using 1(1) [OF False] by simp
      then show ?thesis
        using False unfolding k' by (subst string_of_nat.simps) simp
    qed
  qed
  have "v < 10 ^ 16"
    using assms by simp
  from len [OF this] have "length (string_of_nat v) \<le> 21"
    by simp
  then show ?thesis
    by (simp add: Number_toString_def shortest_safe [OF assms] Let_def)
qed

section \<open>Properties of the matcher\<close>

lemma mem_one:
  "st' \<in> set (one f c (b, xs, cs)) \<longleftrightarrow>
     (\<exists>x xs'. xs = x # xs' \<and> in_class f c x \<and> st' = (x # b, xs', cs))"
  by (cases xs) auto

lemma mem_star:
  "st' \<in> set (star f c (b, xs, cs)) \<longleftrightarrow>
     (\<exists>ys zs. xs = ys @ zs \<and> (\<forall>y\<in>set ys. in_class f c y) \<and> st' = (rev ys @ b, zs, cs))"
proof (induction xs arbitrary: b)
  case Nil
  then show ?case by auto
next
  case (Cons x xs)
  show ?case
  proof
    assume "st' \<in> set (star f c (b, x # xs, cs))"
    then consider "in_class f c x" "st' \<in> set (star f c (x # b, xs, cs))" | "st' = (b, x # xs, cs)"
      by (auto split: if_splits)
    then show "\<exists>ys zs. x # xs = ys @ zs \<and> (\<forall>y\<in>set ys. in_class f c y) \<and> st' = (rev ys @ b, zs, cs)"
    proof cases
      case 1
      then obtain ys zs where "xs = ys @ zs" "\<forall>y\<in>set ys. in_class f c y" "st' = (rev ys @ x # b, zs, cs)"
        using Cons.IH by blast
      with 1 show ?thesis
        by (intro exI [of _ "x # ys"] exI [of _ zs]) simp
    next
      case 2
      then show ?thesis
        by (intro exI [of _ "[]"] exI [of _ "x # xs"]) simp
    qed
  next
    assume "\<exists>ys zs. x # xs = ys @ zs \<and> (\<forall>y\<in>set ys. in_class f c y) \<and> st' = (rev ys @ b, zs, cs)"
    then obtain ys zs where h: "x # xs = ys @ zs" "\<forall>y\<in>set ys. in_class f c y" "st' = (rev ys @ b, zs, cs)"
      by blast
    show "st' \<in> set (star f c (b, x # xs, cs))"
    proof (cases ys)
      case Nil
      with h have "st' = (b, x # xs, cs)" by simp
      then show ?thesis by simp
    next
      case (Cons y ys')
      with h have "y = x" "xs = ys' @ zs" "in_class f c x" "\<forall>y\<in>set ys'. in_class f c y"
        by auto
      moreover have "st' = (rev ys' @ x # b, zs, cs)"
        using h Cons \<open>y = x\<close> by simp
      ultimately have "st' \<in> set (star f c (x # b, xs, cs))"
        using Cons.IH by blast
      with \<open>in_class f c x\<close> show ?thesis by simp
    qed
  qed
qed

lemma mem_lit:
  "st' \<in> set (lit f w (b, xs, cs)) \<longleftrightarrow>
     (\<exists>ys zs. xs = ys @ zs \<and> list_all2 (char_eq f) w ys \<and> st' = (rev ys @ b, zs, cs))"
proof (induction w arbitrary: b xs)
  case Nil
  then show ?case by auto
next
  case (Cons a w)
  show ?case
  proof (cases xs)
    case Nil
    then show ?thesis by simp
  next
    case (Cons x xs')
    show ?thesis
    proof (cases "char_eq f a x")
      case True
      have "(\<exists>ys zs. x # xs' = ys @ zs \<and> list_all2 (char_eq f) (a # w) ys \<and> st' = (rev ys @ b, zs, cs))
        \<longleftrightarrow> (\<exists>ys zs. xs' = ys @ zs \<and> list_all2 (char_eq f) w ys \<and> st' = (rev ys @ x # b, zs, cs))"
        (is "?L \<longleftrightarrow> ?R")
      proof
        assume ?L
        then obtain ys zs where h: "x # xs' = ys @ zs" "list_all2 (char_eq f) (a # w) ys"
          "st' = (rev ys @ b, zs, cs)" by blast
        then obtain y ys' where "ys = y # ys'" "list_all2 (char_eq f) w ys'"
          by (auto simp: list_all2_Cons1)
        with h show ?R by auto
      next
        assume ?R
        then obtain ys zs where "xs' = ys @ zs" "list_all2 (char_eq f) w ys"
          "st' = (rev ys @ x # b, zs, cs)" by blast
        with True show ?L
          by (intro exI [of _ "x # ys"] exI [of _ zs]) simp
      qed
      with True Cons Cons.IH [of "x # b" xs'] show ?thesis by simp
    next
      case False
      then show ?thesis using Cons by (auto simp: list_all2_Cons1)
    qed
  qed
qed

lemma mem_Seq:
  "st'' \<in> set (ms f (Seq r1 r2) st) \<longleftrightarrow> (\<exists>st'\<in>set (ms f r1 st). st'' \<in> set (ms f r2 st'))"
  by auto

lemma mem_plus:
  "st' \<in> set (ms f (Plus c) (b, xs, cs)) \<longleftrightarrow>
     (\<exists>ys zs. xs = ys @ zs \<and> ys \<noteq> [] \<and> (\<forall>y\<in>set ys. in_class f c y) \<and> st' = (rev ys @ b, zs, cs))"
  (is "?L \<longleftrightarrow> ?R")
proof
  assume ?L
  then obtain x xs' where x: "xs = x # xs'" "in_class f c x" "st' \<in> set (star f c (x # b, xs', cs))"
    by (auto simp: mem_one)
  then obtain ys zs where "xs' = ys @ zs" "\<forall>y\<in>set ys. in_class f c y" "st' = (rev ys @ x # b, zs, cs)"
    unfolding mem_star by blast
  with x show ?R
    by (intro exI [of _ "x # ys"] exI [of _ zs]) simp
next
  assume ?R
  then obtain ys zs where h: "xs = ys @ zs" "ys \<noteq> []" "\<forall>y\<in>set ys. in_class f c y"
    "st' = (rev ys @ b, zs, cs)" by blast
  then obtain y ys' where ys: "ys = y # ys'" by (cases ys) auto
  have "(y # b, ys' @ zs, cs) \<in> set (one f c (b, xs, cs))"
    using h ys by (simp add: mem_one)
  moreover have "st' \<in> set (star f c (y # b, ys' @ zs, cs))"
    unfolding mem_star using h ys by (intro exI [of _ ys'] exI [of _ zs]) simp
  ultimately show ?L by auto
qed


lemma ne_iff_mem: "l \<noteq> [] \<longleftrightarrow> (\<exists>x. x \<in> set l)"
  by (cases l) auto

lemma mem_Eps: "st' \<in> set (ms f Eps st) \<longleftrightarrow> st' = st"
  by auto

lemma mem_Alt:
  "st' \<in> set (ms f (Alt r1 r2) st) \<longleftrightarrow> st' \<in> set (ms f r1 st) \<or> st' \<in> set (ms f r2 st)"
  by auto

lemma mem_Star:
  "st' \<in> set (ms f (Star c) (b, xs, cs)) \<longleftrightarrow>
     (\<exists>ys zs. xs = ys @ zs \<and> (\<forall>y\<in>set ys. in_class f c y) \<and> st' = (rev ys @ b, zs, cs))"
  by (simp add: mem_star)

lemma mem_Lit:
  "st' \<in> set (ms f (Lit w) (b, xs, cs)) \<longleftrightarrow>
     (\<exists>ys zs. xs = ys @ zs \<and> list_all2 (char_eq f) w ys \<and> st' = (rev ys @ b, zs, cs))"
  by (simp add: mem_lit)

lemma mem_Opt:
  "st' \<in> set (ms f (Opt c) (b, xs, cs)) \<longleftrightarrow>
     (\<exists>x xs'. xs = x # xs' \<and> in_class f c x \<and> st' = (x # b, xs', cs)) \<or> st' = (b, xs, cs)"
  by (auto simp: mem_one)

lemma mem_Bol:
  "st' \<in> set (ms f Bol (b, xs, cs)) \<longleftrightarrow>
     (b = [] \<or> multiline f \<and> is_lineterm (hd b)) \<and> st' = (b, xs, cs)"
  by auto

lemma mem_Eol:
  "st' \<in> set (ms f Eol (b, xs, cs)) \<longleftrightarrow>
     (xs = [] \<or> multiline f \<and> is_lineterm (hd xs)) \<and> st' = (b, xs, cs)"
  by auto

lemma mem_Grp:
  "st' \<in> set (ms f (Grp n r) (b, xs, cs)) \<longleftrightarrow>
     (\<exists>b' xs' cs'. (b', xs', cs') \<in> set (ms f r (b, xs, cs)) \<and>
        st' = (b', xs', (n, take (length xs - length xs') xs) # cs'))"
  by (force simp: ms.simps)

lemma char_eq_no_flags: "char_eq no_flags = (\<lambda>a x. x = a)"
  by (simp add: char_eq_def no_flags_def fun_eq_iff)

lemma list_all2_eq_flip: "list_all2 (\<lambda>a x. x = a) w ys \<longleftrightarrow> ys = w"
  by (induction w arbitrary: ys) (auto simp: list_all2_Cons1)

lemma mem_Lit_no_flags:
  "st' \<in> set (ms no_flags (Lit w) (b, xs, cs)) \<longleftrightarrow> (\<exists>zs. xs = w @ zs \<and> st' = (rev w @ b, zs, cs))"
  by (auto simp: mem_lit char_eq_no_flags list_all2_eq_flip)

lemma no_flags_simps: "\<not> multiline no_flags" "\<not> ignoreCase no_flags"
  by (simp_all add: no_flags_def)

lemma exec_from_None_iff:
  "exec_from f r b xs = None \<longleftrightarrow> (\<forall>ys zs. xs = ys @ zs \<longrightarrow> ms f r (rev ys @ b, zs, []) = [])"
proof (induction xs arbitrary: b)
  case Nil
  then show ?case by (auto split: list.splits)
next
  case (Cons x xs)
  have "(\<forall>ys zs. x # xs = ys @ zs \<longrightarrow> ms f r (rev ys @ b, zs, []) = []) \<longleftrightarrow>
        ms f r (b, x # xs, []) = [] \<and> (\<forall>ys zs. xs = ys @ zs \<longrightarrow> ms f r (rev ys @ x # b, zs, []) = [])"
    (is "?L \<longleftrightarrow> ?R")
  proof
    assume l: ?L
    have "ms f r (rev [] @ b, x # xs, []) = []"
      using l by blast
    moreover have "ms f r (rev ys @ x # b, zs, []) = []" if "xs = ys @ zs" for ys zs
      using l [rule_format, of "x # ys" zs] that by simp
    ultimately show ?R by simp
  next
    assume r: ?R
    show ?L
    proof (intro allI impI)
      fix ys zs
      assume "x # xs = ys @ zs"
      then show "ms f r (rev ys @ b, zs, []) = []"
        using r by (cases ys) auto
    qed
  qed
  then show ?case
    using Cons.IH [of "x # b"] by (auto split: list.splits)
qed

lemma exec_from_Some:
  assumes "exec_from f r b xs = Some (sk, st)"
  shows "\<exists>zs. xs = sk @ zs \<and> ms f r (rev sk @ b, zs, []) \<noteq> [] \<and> st = hd (ms f r (rev sk @ b, zs, []))"
  using assms
proof (induction xs arbitrary: b sk)
  case Nil
  then show ?case by (auto split: list.splits)
next
  case (Cons x xs)
  show ?case
  proof (cases "ms f r (b, x # xs, [])")
    case Nil
    with Cons.prems obtain sk' where sk': "exec_from f r (x # b) xs = Some (sk', st)" "sk = x # sk'"
      by auto
    from Cons.IH [OF sk'(1)] sk'(2) show ?thesis by auto
  next
    case (Cons st' sts)
    with Cons.prems show ?thesis by auto
  qed
qed

declare ms.simps [simp del]

section \<open>Properties of the patterns\<close>

lemma test_ORG_REPO_REGEX:
  "test no_flags ORG_REPO_REGEX s \<longleftrightarrow>
     (\<exists>org rp. s = org @ ''/'' @ rp \<and> org \<noteq> [] \<and> rp \<noteq> [] \<and>
        (\<forall>c\<in>set (org @ rp). c \<noteq> CHR ''/'' \<and> \<not> is_space c))"
  (is "?L \<longleftrightarrow> ?R")
proof -
  let ?body = "Seq (Plus NotSlashSpace) (Seq (Lit ''/'') (Seq (Plus NotSlashSpace) (Seq Eol Eps)))"
  have nm: "\<not> multiline no_flags" by (simp add: no_flags_def)
  have rx: "ORG_REPO_REGEX = Seq Bol ?body"
    by (simp add: ORG_REPO_REGEX_def seqs_def)
  have "?L \<longleftrightarrow> (\<exists>ys zs. s = ys @ zs \<and> ms no_flags ORG_REPO_REGEX (rev ys, zs, []) \<noteq> [])"
    using exec_from_None_iff [of no_flags ORG_REPO_REGEX "[]" s] by (auto simp: test_def exec_def)
  also have "\<dots> \<longleftrightarrow> ms no_flags ?body ([], s, []) \<noteq> []"
    by (auto simp: rx ms.simps no_flags_simps)
  also have "\<dots> \<longleftrightarrow> (\<exists>st. st \<in> set (ms no_flags ?body ([], s, [])))"
    by (rule ne_iff_mem)
  also have "\<dots> \<longleftrightarrow> ?R"
  proof
    assume "\<exists>st. st \<in> set (ms no_flags ?body ([], s, []))"
    then obtain st st1 st2 st3 where
      1: "st1 \<in> set (ms no_flags (Plus NotSlashSpace) ([], s, []))" and
      2: "st2 \<in> set (ms no_flags (Lit ''/'') st1)" and
      3: "st3 \<in> set (ms no_flags (Plus NotSlashSpace) st2)" and
      4: "st \<in> set (ms no_flags Eol st3)"
      unfolding mem_Seq mem_Eps by blast
    from 1 obtain org zs where org: "s = org @ zs" "org \<noteq> []"
      "\<forall>y\<in>set org. in_class no_flags NotSlashSpace y" and st1: "st1 = (rev org, zs, [])"
      unfolding mem_plus by blast
    from 2 obtain zs' where zs': "zs = ''/'' @ zs'" and st2: "st2 = (rev ''/'' @ rev org, zs', [])"
      unfolding st1 mem_Lit_no_flags by blast
    from 3 obtain rp zs'' where rp: "zs' = rp @ zs''" "rp \<noteq> []"
      "\<forall>y\<in>set rp. in_class no_flags NotSlashSpace y"
      and st3: "st3 = (rev rp @ rev ''/'' @ rev org, zs'', [])"
      unfolding st2 mem_plus by blast
    from 4 have "zs'' = []"
      unfolding st3 mem_Eol by (simp add: no_flags_simps)
    have "s = org @ ''/'' @ rp"
      using org(1) zs' rp(1) \<open>zs'' = []\<close> by simp
    moreover have "\<forall>c\<in>set (org @ rp). c \<noteq> CHR ''/'' \<and> \<not> is_space c"
      using org(3) rp(3) by auto
    ultimately show ?R
      using org(2) rp(2) by blast
  next
    assume ?R
    then obtain org rp where h: "s = org @ ''/'' @ rp" "org \<noteq> []" "rp \<noteq> []"
      "\<forall>c\<in>set (org @ rp). c \<noteq> CHR ''/'' \<and> \<not> is_space c" by blast
    have 1: "(rev org, ''/'' @ rp, []) \<in> set (ms no_flags (Plus NotSlashSpace) ([], s, []))"
      unfolding mem_plus by (rule exI [of _ org], rule exI [of _ "''/'' @ rp"]) (use h in simp)
    have 2: "(rev ''/'' @ rev org, rp, []) \<in> set (ms no_flags (Lit ''/'') (rev org, ''/'' @ rp, []))"
      unfolding mem_Lit_no_flags by simp
    have 3: "(rev rp @ rev ''/'' @ rev org, [], []) \<in> set (ms no_flags (Plus NotSlashSpace) (rev ''/'' @ rev org, rp, []))"
      unfolding mem_plus by (rule exI [of _ rp], rule exI [of _ "[]"]) (use h in simp)
    have 4: "(rev rp @ rev ''/'' @ rev org, [], []) \<in> set (ms no_flags Eol (rev rp @ rev ''/'' @ rev org, [], []))"
      by (simp add: mem_Eol)
    show "\<exists>st. st \<in> set (ms no_flags ?body ([], s, []))"
      unfolding mem_Seq mem_Eps using 1 2 3 4 by blast
  qed
  finally show ?thesis .
qed

lemma digit_not_space: "is_digit c \<Longrightarrow> \<not> is_space c"
  by (auto simp: is_digit_def is_space_def)

lemma not_digit_simps [simp]: "\<not> is_digit CHR ''#''" "\<not> is_digit CHR '')''" "\<not> is_space CHR '')''"
  by (simp_all add: is_digit_def is_space_def)

lemma ms_pr_number_regex:
  "st \<in> set (ms no_flags pr_number_regex (b, zs, [])) \<longleftrightarrow>
     (\<exists>ds. ds \<noteq> [] \<and> (\<forall>d\<in>set ds. is_digit d) \<and>
        (zs = ''(#'' @ ds @ '')'' \<and> st = (rev zs @ b, [], [(1, ds)]) \<or>
         (\<exists>ws. zs = ''#'' @ ds @ ws \<and> (\<forall>w\<in>set ws. is_space w) \<and>
            st = (rev zs @ b, [], [(2, ds)]))))"
  (is "?L \<longleftrightarrow> ?R")
proof -
  let ?a1 = "Seq (Lit ''(#'') (Seq (Grp 1 (Plus Digit)) (Seq (Lit '')'') (Seq Eol Eps)))"
  let ?a2 = "Seq (Lit ''#'') (Seq (Grp 2 (Plus Digit)) (Seq (Star Space) (Seq Eol Eps)))"
  have rx: "pr_number_regex = Alt ?a1 ?a2"
    by (simp add: pr_number_regex_def seqs_def)
  have a1: "st \<in> set (ms no_flags ?a1 (b, zs, [])) \<longleftrightarrow>
     (\<exists>ds. ds \<noteq> [] \<and> (\<forall>d\<in>set ds. is_digit d) \<and> zs = ''(#'' @ ds @ '')'' \<and>
        st = (rev zs @ b, [], [(1, ds)]))" (is "?L1 \<longleftrightarrow> ?R1")
  proof
    assume ?L1
    then obtain st1 st2 st3 where
      1: "st1 \<in> set (ms no_flags (Lit ''(#'') (b, zs, []))" and
      2: "st2 \<in> set (ms no_flags (Grp 1 (Plus Digit)) st1)" and
      3: "st3 \<in> set (ms no_flags (Lit '')'') st2)" and
      4: "st \<in> set (ms no_flags Eol st3)"
      unfolding mem_Seq mem_Eps by blast
    from 1 obtain z1 where z1: "zs = ''(#'' @ z1" and st1: "st1 = (rev ''(#'' @ b, z1, [])"
      unfolding mem_Lit_no_flags by blast
    from 2 obtain ds z2 where ds: "z1 = ds @ z2" "ds \<noteq> []" "\<forall>d\<in>set ds. in_class no_flags Digit d"
      and st2: "st2 = (rev ds @ rev ''(#'' @ b, z2, [(1, take (length z1 - length z2) z1)])"
      unfolding st1 mem_Grp mem_plus by blast
    have cap: "take (length z1 - length z2) z1 = ds"
      using ds(1) by simp
    from 3 obtain z3 where z3: "z2 = '')'' @ z3"
      and st3: "st3 = (rev '')'' @ rev ds @ rev ''(#'' @ b, z3, [(1, ds)])"
      unfolding st2 cap mem_Lit_no_flags by blast
    from 4 have e: "z3 = []" and st: "st = st3"
      unfolding st3 mem_Eol by (simp_all add: no_flags_simps)
    have "zs = ''(#'' @ ds @ '')''"
      using z1 ds(1) z3 e by simp
    moreover have "st = (rev zs @ b, [], [(1, ds)])"
      using st st3 e calculation by simp
    ultimately show ?R1
      using ds(2,3) by auto
  next
    assume ?R1
    then obtain ds where h: "ds \<noteq> []" "\<forall>d\<in>set ds. is_digit d" "zs = ''(#'' @ ds @ '')''"
      "st = (rev zs @ b, [], [(1, ds)])" by blast
    have 1: "(rev ''(#'' @ b, ds @ '')'', []) \<in> set (ms no_flags (Lit ''(#'') (b, zs, []))"
      unfolding mem_Lit_no_flags using h(3) by simp
    have 2: "(rev ds @ rev ''(#'' @ b, '')'', [(1, ds)]) \<in>
        set (ms no_flags (Grp 1 (Plus Digit)) (rev ''(#'' @ b, ds @ '')'', []))"
      unfolding mem_Grp mem_plus
      by (rule exI [of _ "rev ds @ rev ''(#'' @ b"], rule exI [of _ "'')''"], rule exI [of _ "[]"],
          rule conjI, rule exI [of _ ds], rule exI [of _ "'')''"]) (use h in simp_all)
    have 3: "(rev '')'' @ rev ds @ rev ''(#'' @ b, [], [(1, ds)]) \<in>
        set (ms no_flags (Lit '')'') (rev ds @ rev ''(#'' @ b, '')'', [(1, ds)]))"
      unfolding mem_Lit_no_flags by simp
    have 4: "(rev '')'' @ rev ds @ rev ''(#'' @ b, [], [(1, ds)]) \<in>
        set (ms no_flags Eol (rev '')'' @ rev ds @ rev ''(#'' @ b, [], [(1, ds)]))"
      by (simp add: mem_Eol)
    have "st = (rev '')'' @ rev ds @ rev ''(#'' @ b, [], [(1, ds)])"
      using h(3,4) by simp
    then show ?L1
      unfolding mem_Seq mem_Eps using 1 2 3 4 by blast
  qed
  have a2: "st \<in> set (ms no_flags ?a2 (b, zs, [])) \<longleftrightarrow>
     (\<exists>ds ws. ds \<noteq> [] \<and> (\<forall>d\<in>set ds. is_digit d) \<and> zs = ''#'' @ ds @ ws \<and>
        (\<forall>w\<in>set ws. is_space w) \<and> st = (rev zs @ b, [], [(2, ds)]))" (is "?L2 \<longleftrightarrow> ?R2")
  proof
    assume ?L2
    then obtain st1 st2 st3 where
      1: "st1 \<in> set (ms no_flags (Lit ''#'') (b, zs, []))" and
      2: "st2 \<in> set (ms no_flags (Grp 2 (Plus Digit)) st1)" and
      3: "st3 \<in> set (ms no_flags (Star Space) st2)" and
      4: "st \<in> set (ms no_flags Eol st3)"
      unfolding mem_Seq mem_Eps by blast
    from 1 obtain z1 where z1: "zs = ''#'' @ z1" and st1: "st1 = (rev ''#'' @ b, z1, [])"
      unfolding mem_Lit_no_flags by blast
    from 2 obtain ds z2 where ds: "z1 = ds @ z2" "ds \<noteq> []" "\<forall>d\<in>set ds. in_class no_flags Digit d"
      and st2: "st2 = (rev ds @ rev ''#'' @ b, z2, [(2, take (length z1 - length z2) z1)])"
      unfolding st1 mem_Grp mem_plus by blast
    have cap: "take (length z1 - length z2) z1 = ds"
      using ds(1) by simp
    from 3 obtain ws z3 where z3: "z2 = ws @ z3" "\<forall>w\<in>set ws. in_class no_flags Space w"
      and st3: "st3 = (rev ws @ rev ds @ rev ''#'' @ b, z3, [(2, ds)])"
      unfolding st2 cap mem_Star by blast
    from 4 have e: "z3 = []" and st: "st = st3"
      unfolding st3 mem_Eol by (simp_all add: no_flags_simps)
    have "zs = ''#'' @ ds @ ws"
      using z1 ds(1) z3 e by simp
    moreover have "st = (rev zs @ b, [], [(2, ds)])"
      using st st3 e calculation by simp
    ultimately show ?R2
      using ds(2,3) z3(2) by auto
  next
    assume ?R2
    then obtain ds ws where h: "ds \<noteq> []" "\<forall>d\<in>set ds. is_digit d" "zs = ''#'' @ ds @ ws"
      "\<forall>w\<in>set ws. is_space w" "st = (rev zs @ b, [], [(2, ds)])" by blast
    have 1: "(rev ''#'' @ b, ds @ ws, []) \<in> set (ms no_flags (Lit ''#'') (b, zs, []))"
      unfolding mem_Lit_no_flags using h(3) by simp
    have 2: "(rev ds @ rev ''#'' @ b, ws, [(2, ds)]) \<in>
        set (ms no_flags (Grp 2 (Plus Digit)) (rev ''#'' @ b, ds @ ws, []))"
      unfolding mem_Grp mem_plus
      by (rule exI [of _ "rev ds @ rev ''#'' @ b"], rule exI [of _ ws], rule exI [of _ "[]"],
          rule conjI, rule exI [of _ ds], rule exI [of _ ws]) (use h in simp_all)
    have 3: "(rev ws @ rev ds @ rev ''#'' @ b, [], [(2, ds)]) \<in>
        set (ms no_flags (Star Space) (rev ds @ rev ''#'' @ b, ws, [(2, ds)]))"
      unfolding mem_Star
      by (rule exI [of _ ws], rule exI [of _ "[]"]) (use h in simp)
    have 4: "(rev ws @ rev ds @ rev ''#'' @ b, [], [(2, ds)]) \<in>
        set (ms no_flags Eol (rev ws @ rev ds @ rev ''#'' @ b, [], [(2, ds)]))"
      by (simp add: mem_Eol)
    have "st = (rev ws @ rev ds @ rev ''#'' @ b, [], [(2, ds)])"
      using h(3,5) by simp
    then show ?L2
      unfolding mem_Seq mem_Eps using 1 2 3 4 by blast
  qed
  show ?thesis
    unfolding rx mem_Alt a1 a2 by blast
qed

section \<open>Properties of the string operations\<close>

lemma split_nl_ne [simp]: "split_nl s \<noteq> []"
  by (induction s) (auto split: list.splits)

lemma hd_split_nl: "hd (split_nl s) = takeWhile (\<lambda>c. c \<noteq> CHR 0x0A) s"
  by (induction s) (auto split: list.splits)

lemma trim_last: "trim s \<noteq> [] \<Longrightarrow> \<not> is_space (last (trim s))"
  unfolding trim_def by (simp add: last_rev hd_dropWhile)

lemma trim_hd: "trim s \<noteq> [] \<Longrightarrow> \<not> is_space (hd (trim s))"
proof -
  assume ne: "trim s \<noteq> []"
  let ?t = "dropWhile is_space s"
  have t: "?t \<noteq> []"
  proof
    assume "?t = []"
    then have "trim s = []" unfolding trim_def by (simp del: dropWhile_eq_Nil_conv)
    with ne show False by simp
  qed
  then have h: "\<not> is_space (hd ?t)" by (rule hd_dropWhile)
  obtain x xs where x: "?t = x # xs" using t by (cases ?t) auto
  with h have nx: "\<not> is_space x" by simp
  have "rev ?t = rev xs @ [x]" using x by simp
  then have "dropWhile is_space (rev ?t) = dropWhile is_space (rev xs) @ [x] \<or>
             dropWhile is_space (rev ?t) = [x]"
    using nx by (simp add: dropWhile_append)
  then have "trim s = x # rev (dropWhile is_space (rev xs)) \<or> trim s = [x]"
    by (auto simp: trim_def)
  then show ?thesis using nx by auto
qed

lemma trim_no_trailing_space:
  assumes "trim s = xs @ ws" "\<forall>w\<in>set ws. is_space w"
  shows "ws = []"
proof (rule ccontr)
  assume "ws \<noteq> []"
  then have "trim s \<noteq> []" "last (trim s) = last ws"
    using assms(1) by simp_all
  moreover have "is_space (last ws)"
    using assms(2) \<open>ws \<noteq> []\<close> by simp
  ultimately show False
    using trim_last by metis
qed

lemma trailing_digits_unique:
  assumes "p @ CHR ''#'' # ds = p' @ CHR ''#'' # ds'"
    "\<forall>d\<in>set ds. is_digit d" "\<forall>d\<in>set ds'. is_digit d"
  shows "ds = ds'"
proof -
  have "rev ds @ CHR ''#'' # rev p = rev ds' @ CHR ''#'' # rev p'"
    using arg_cong [OF assms(1), of rev] by simp
  then have "takeWhile is_digit (rev ds @ CHR ''#'' # rev p) =
             takeWhile is_digit (rev ds' @ CHR ''#'' # rev p')"
    by simp
  moreover have "takeWhile is_digit (rev ds @ CHR ''#'' # rev p) =
      rev ds @ takeWhile is_digit (CHR ''#'' # rev p)"
    by (rule takeWhile_append2) (use assms(2) in simp)
  moreover have "takeWhile is_digit (rev ds' @ CHR ''#'' # rev p') =
      rev ds' @ takeWhile is_digit (CHR ''#'' # rev p')"
    by (rule takeWhile_append2) (use assms(3) in simp)
  ultimately show ?thesis by simp
qed

lemma exec_pr_number_Some:
  assumes "exec no_flags pr_number_regex l = Some (sk, st)"
  shows "\<exists>ds. ds \<noteq> [] \<and> (\<forall>d\<in>set ds. is_digit d) \<and>
           or_else (group st 1) (group st 2) = Some ds \<and>
           (l = sk @ ''(#'' @ ds @ '')'' \<or>
            (\<exists>ws. l = sk @ ''#'' @ ds @ ws \<and> (\<forall>w\<in>set ws. is_space w)))"
proof -
  from exec_from_Some [OF assms [unfolded exec_def]]
  obtain zs where zs: "l = sk @ zs" "ms no_flags pr_number_regex (rev sk, zs, []) \<noteq> []"
    "st = hd (ms no_flags pr_number_regex (rev sk, zs, []))" by auto
  then have "st \<in> set (ms no_flags pr_number_regex (rev sk, zs, []))"
    by simp
  then obtain ds where ds: "ds \<noteq> []" "\<forall>d\<in>set ds. is_digit d"
    "zs = ''(#'' @ ds @ '')'' \<and> st = (rev zs @ rev sk, [], [(1, ds)]) \<or>
     (\<exists>ws. zs = ''#'' @ ds @ ws \<and> (\<forall>w\<in>set ws. is_space w) \<and>
        st = (rev zs @ rev sk, [], [(2, ds)]))"
    unfolding ms_pr_number_regex by blast
  from ds(3) show ?thesis
  proof
    assume a: "zs = ''(#'' @ ds @ '')'' \<and> st = (rev zs @ rev sk, [], [(1, ds)])"
    then have "or_else (group st 1) (group st 2) = Some ds"
      using ds(1) by (simp add: or_else_def group_def str_truthy_def)
    with a ds(1,2) zs(1) show ?thesis by blast
  next
    assume "\<exists>ws. zs = ''#'' @ ds @ ws \<and> (\<forall>w\<in>set ws. is_space w) \<and>
        st = (rev zs @ rev sk, [], [(2, ds)])"
    then obtain ws where a: "zs = ''#'' @ ds @ ws" "\<forall>w\<in>set ws. is_space w"
      "st = (rev zs @ rev sk, [], [(2, ds)])" by blast
    then have "or_else (group st 1) (group st 2) = Some ds"
      using ds(1) by (simp add: or_else_def group_def str_truthy_def)
    with a ds(1,2) zs(1) show ?thesis by blast
  qed
qed

lemma exec_pr_number_ex:
  assumes "ds \<noteq> []" "\<forall>d\<in>set ds. is_digit d"
    "l = p @ ''(#'' @ ds @ '')'' \<or> l = p @ ''#'' @ ds"
  shows "exec no_flags pr_number_regex l \<noteq> None"
proof -
  from assms(3) obtain zs where zs: "l = p @ zs" "zs = ''(#'' @ ds @ '')'' \<or> zs = ''#'' @ ds @ []"
    by auto
  from zs(2) have "\<exists>st. st \<in> set (ms no_flags pr_number_regex (rev p, zs, []))"
  proof
    assume "zs = ''(#'' @ ds @ '')''"
    then have "(rev zs @ rev p, [], [(1, ds)]) \<in> set (ms no_flags pr_number_regex (rev p, zs, []))"
      unfolding ms_pr_number_regex using assms(1,2) by blast
    then show ?thesis ..
  next
    assume z: "zs = ''#'' @ ds @ []"
    have "\<forall>w\<in>set ([] :: string). is_space w" by simp
    with z have "(rev zs @ rev p, [], [(2, ds)]) \<in> set (ms no_flags pr_number_regex (rev p, zs, []))"
      unfolding ms_pr_number_regex using assms(1,2) by blast
    then show ?thesis ..
  qed
  then have "ms no_flags pr_number_regex (rev p @ [], zs, []) \<noteq> []"
    by (simp add: ne_iff_mem)
  then show ?thesis
    unfolding exec_def exec_from_None_iff using zs(1) by blast
qed

lemma last_digit: "ds \<noteq> [] \<Longrightarrow> \<forall>d\<in>set ds. is_digit d \<Longrightarrow> is_digit (last ds)"
  by simp


lemma join_Cons: "join sep (x # xs) = x @ concat (map (\<lambda>l. sep @ l) xs)"
  by (induction xs arbitrary: x) auto

lemma join_split_nl: "join ''\<newline>'' (split_nl s) = s"
proof (induction s)
  case Nil
  then show ?case by simp
next
  case (Cons c s)
  obtain l ls where l: "split_nl s = l # ls"
    by (cases "split_nl s") auto
  with Cons show ?case
    by (auto simp: join_Cons)
qed

lemma split_nl_no_nl: "l \<in> set (split_nl s) \<Longrightarrow> CHR 0x0A \<notin> set l"
proof (induction s arbitrary: l)
  case Nil
  then show ?case by simp
next
  case (Cons c s)
  obtain k ks where k: "split_nl s = k # ks"
    by (cases "split_nl s") auto
  with Cons show ?case
    by (auto split: if_splits)
qed

lemma last_split_nl:
  "s \<noteq> [] \<Longrightarrow> last s \<noteq> CHR 0x0A \<Longrightarrow>
   last (split_nl s) \<noteq> [] \<and> last (last (split_nl s)) = last s"
proof (induction s)
  case Nil
  then show ?case by simp
next
  case (Cons c s)
  obtain k ks where k: "split_nl s = k # ks"
    by (cases "split_nl s") auto
  show ?case
  proof (cases "s = []")
    case True
    with Cons.prems show ?thesis by simp
  next
    case False
    with Cons have ih: "last (split_nl s) \<noteq> []" "last (last (split_nl s)) = last s"
      by auto
    show ?thesis
    proof (cases ks)
      case Nil
      with k ih False show ?thesis by auto
    next
      case (Cons k' ks')
      with k ih False show ?thesis by auto
    qed
  qed
qed

lemma trim_nl: "trim s \<noteq> [] \<Longrightarrow> last (trim s) \<noteq> CHR 0x0A"
  using trim_last [of s] by (auto simp: is_space_def)

lemma last_concat_indent:
  "rest \<noteq> [] \<Longrightarrow> last rest \<noteq> [] \<Longrightarrow>
   last (a @ concat (map (\<lambda>l. ''\<newline>  '' @ l) rest)) = last (last rest)"
proof (induction rest arbitrary: a)
  case Nil
  then show ?case by simp
next
  case (Cons l rest)
  show ?case
  proof (cases "rest = []")
    case True
    with Cons.prems show ?thesis by simp
  next
    case False
    with Cons.prems have "last rest \<noteq> []" by simp
    from Cons.IH [OF False this, of "a @ ''\<newline>  '' @ l"] False show ?thesis by simp
  qed
qed

lemma getReleaseLine_ok:
  assumes "validate options = Inr opts" "getRepository env = (ev, Inr rp)"
  shows "getReleaseLine env cs bt options =
     (ev @ fst (resolveCommitMsg rp (commit cs)),
      Inr (''\<newline>- '' @ hd (split_nl (cleanSummary (summary cs))) @
           getSuffix (getPrNumber (snd (resolveCommitMsg rp (commit cs)))) (commit cs) opts @
           ''\<newline>'' @ join ''\<newline>'' (map indent (tl (split_nl (cleanSummary (summary cs)))))))"
  unfolding getReleaseLine_def Let_def assms
  by (simp only: sum.case prod.case split_beta fst_conv snd_conv)

lemma trim_idem: "trim (trim s) = trim s"
proof (cases "trim s = []")
  case True
  have "trim [] = []" by (simp add: trim_def)
  with True show ?thesis by simp
next
  case False
  let ?t = "trim s"
  have 1: "dropWhile is_space ?t = ?t"
    using trim_hd [OF False] by (simp add: dropWhile_eq_self_iff)
  have "\<not> is_space (hd (rev ?t))"
    using trim_last [OF False] False by (simp add: hd_rev)
  then have 2: "dropWhile is_space (rev ?t) = rev ?t"
    by (simp add: dropWhile_eq_self_iff)
  show ?thesis
    unfolding trim_def [of ?t] 1 2 by simp
qed

lemma set_trim: "x \<in> set (trim s) \<Longrightarrow> x \<in> set s"
  by (auto simp: trim_def dest!: set_dropWhileD)

lemma first_line_trimmed_idem:
  "trim (hd (split_nl (trim (hd (split_nl m))))) = trim (hd (split_nl m))"
proof -
  let ?l = "takeWhile (\<lambda>c. c \<noteq> CHR 0x0A) m"
  have "\<forall>c\<in>set ?l. c \<noteq> CHR 0x0A"
    using set_takeWhileD by fastforce
  then have "\<forall>c\<in>set (trim ?l). c \<noteq> CHR 0x0A"
    using set_trim by blast
  then have h: "takeWhile (\<lambda>c. c \<noteq> CHR 0x0A) (trim ?l) = trim ?l"
    by (simp add: takeWhile_eq_all_conv)
  show ?thesis
    unfolding hd_split_nl h trim_idem ..
qed

lemma getPrNumber_first_line:
  "getPrNumber (if str_truthy (Some m) then Some (trim (hd (split_nl m))) else None) =
   getPrNumber (Some m)"
proof (cases "m = []")
  case True
  then show ?thesis by (simp add: getPrNumber_def str_truthy_def)
next
  case False
  show ?thesis
  proof (cases "trim (hd (split_nl m)) = []")
    case True
    have "exec no_flags pr_number_regex [] = None"
      by (simp add: exec_def pr_number_regex_def seqs_def ms.simps char_eq_def no_flags_def)
    with True False show ?thesis
      by (simp add: getPrNumber_def str_truthy_def)
  next
    case nonempty: False
    with False show ?thesis
      by (simp add: getPrNumber_def str_truthy_def first_line_trimmed_idem)
  qed
qed

text \<open>The equations that evaluate the functions on a given input.\<close>

lemmas eval_defs = validate_def test_def exec_def no_flags_def flags_im_def ORG_REPO_REGEX_def
  pr_regex_def commit_regex_def author_regex_def pr_number_regex_def seqs_def ms.simps
  char_eq_def canonicalize_def is_space_def is_digit_def is_lineterm_def trim_def
  replace_first_def replace_all_def replace_all_from.simps cleanSummary_def
  getPrNumber_def str_truthy_def num_truthy_def or_else_def group_def parseInt10_def digit_val_def
  digits_value_def to_double_def string_of_nat.simps Number_toString_safe
  getSuffix_def getShortSha_def getCommitUrl_def getPrUrl_def getRepoUrl_def
  getRepository_def resolveCommitMsg_def

section \<open>Properties of the summary cleaner\<close>

lemma ms_consumes:
  "(b', xs', cs') \<in> set (ms f r (b, xs, cs)) \<Longrightarrow> \<exists>m. xs = m @ xs' \<and> b' = rev m @ b"
proof (induction r arbitrary: b xs cs b' xs' cs')
  case Eps
  then show ?case by (simp add: mem_Eps)
next
  case (Atom c)
  then show ?case by (auto simp: ms.simps mem_one)
next
  case (Lit w)
  then show ?case unfolding mem_Lit by auto
next
  case (Star c)
  then show ?case unfolding mem_Star by auto
next
  case (Plus c)
  then show ?case unfolding mem_plus by auto
next
  case (Opt c)
  then show ?case unfolding mem_Opt by auto
next
  case (Seq r1 r2)
  from Seq.prems obtain b1 xs1 cs1 where
    1: "(b1, xs1, cs1) \<in> set (ms f r1 (b, xs, cs))" and
    2: "(b', xs', cs') \<in> set (ms f r2 (b1, xs1, cs1))"
    unfolding mem_Seq by auto
  from Seq.IH(1) [OF 1] obtain m1 where m1: "xs = m1 @ xs1" "b1 = rev m1 @ b" by blast
  from Seq.IH(2) [OF 2] obtain m2 where m2: "xs1 = m2 @ xs'" "b' = rev m2 @ b1" by blast
  from m1 m2 have "xs = (m1 @ m2) @ xs' \<and> b' = rev (m1 @ m2) @ b" by simp
  then show ?case by blast
next
  case (Alt r1 r2)
  then show ?case unfolding mem_Alt by blast
next
  case Bol
  then show ?case unfolding mem_Bol by simp
next
  case Eol
  then show ?case unfolding mem_Eol by simp
next
  case (Grp n r)
  then show ?case unfolding mem_Grp by blast
qed

lemma star_hd:
  "star f c (b, xs, cs) \<noteq> [] \<and>
   fst (snd (hd (star f c (b, xs, cs)))) = dropWhile (in_class f c) xs"
  by (induction xs arbitrary: b) auto

lemma hd_concat_map:
  "concat (map g l) \<noteq> [] \<Longrightarrow> \<exists>x. g x \<noteq> [] \<and> hd (concat (map g l)) = hd (g x)"
proof (induction l)
  case Nil
  then show ?case by simp
next
  case (Cons a l)
  show ?case
  proof (cases "g a = []")
    case True
    with Cons show ?thesis by simp
  next
    case False
    then have "hd (concat (map g (a # l))) = hd (g a)" by simp
    with False show ?thesis by blast
  qed
qed

lemma greedy_end_Plus: "greedy_end f (in_class f c) (Seq (Grp n (Plus c)) Eps)"
  unfolding greedy_end_def
proof (intro allI impI)
  fix st :: mstate
  obtain b xs cs where st: "st = (b, xs, cs)" by (cases st) auto
  let ?g = "\<lambda>(b', xs', cs'). (b', xs', (n, take (length xs - length xs') xs) # cs')"
  have eps: "concat (map (ms f Eps) l) = l" for l
    by (induction l) (simp_all add: ms.simps)
  have ms: "ms f (Seq (Grp n (Plus c)) Eps) st = map ?g (concat (map (star f c) (one f c st)))"
    unfolding st by (simp only: ms.simps(7) eps ms.simps(11) ms.simps(5))
  assume ne: "ms f (Seq (Grp n (Plus c)) Eps) st \<noteq> []"
  then have ne': "concat (map (star f c) (one f c st)) \<noteq> []"
    unfolding ms by simp
  then obtain x xs' where xs: "xs = x # xs'" "in_class f c x"
    unfolding st by (cases xs) (auto split: if_splits)
  then have c: "concat (map (star f c) (one f c st)) = star f c (x # b, xs', cs)"
    unfolding st by simp
  have sne: "star f c (x # b, xs', cs) \<noteq> []"
    using star_hd by blast
  have g: "fst (snd (?g p)) = fst (snd p)" for p
    by (cases p) simp
  have "hd (ms f (Seq (Grp n (Plus c)) Eps) st) = ?g (hd (star f c (x # b, xs', cs)))"
    unfolding ms c using sne by (rule hd_map)
  then have "fst (snd (hd (ms f (Seq (Grp n (Plus c)) Eps) st))) =
      fst (snd (hd (star f c (x # b, xs', cs))))"
    by (simp only: g)
  also have "\<dots> = dropWhile (in_class f c) xs'"
    using star_hd by blast
  finally have r: "fst (snd (hd (ms f (Seq (Grp n (Plus c)) Eps) st))) =
      dropWhile (in_class f c) xs'" .
  have "dropWhile (in_class f c) xs' = [] \<or>
      \<not> in_class f c (hd (dropWhile (in_class f c) xs'))"
    using hd_dropWhile [of "in_class f c" xs'] by blast
  then show "ends_token (in_class f c) (fst (snd (hd (ms f (Seq (Grp n (Plus c)) Eps) st))))"
    unfolding ends_token_def r .
qed

lemma greedy_end_Seq: "greedy_end f T r2 \<Longrightarrow> greedy_end f T (Seq r1 r2)"
  unfolding greedy_end_def
proof (intro allI impI)
  fix st
  assume g: "\<forall>st. ms f r2 st \<noteq> [] \<longrightarrow> ends_token T (fst (snd (hd (ms f r2 st))))"
    and ne: "ms f (Seq r1 r2) st \<noteq> []"
  from ne have "concat (map (ms f r2) (ms f r1 st)) \<noteq> []"
    by (simp add: ms.simps)
  from hd_concat_map [OF this] obtain st1 where
    st1: "ms f r2 st1 \<noteq> []" "hd (ms f (Seq r1 r2) st) = hd (ms f r2 st1)"
    by (auto simp: ms.simps)
  from g st1(1) have "ends_token T (fst (snd (hd (ms f r2 st1))))"
    by blast
  then show "ends_token T (fst (snd (hd (ms f (Seq r1 r2) st))))"
    unfolding st1(2) .
qed

lemma exec_from_Some_greedy:
  assumes "greedy_end f T r" "exec_from f r b xs = Some (sk, (b', rest, cs))"
  shows "ends_token T rest"
proof -
  from exec_from_Some [OF assms(2)] obtain zs where
    "ms f r (rev sk @ b, zs, []) \<noteq> []" "(b', rest, cs) = hd (ms f r (rev sk @ b, zs, []))"
    by blast
  with assms(1) have "ends_token T (fst (snd (b', rest, cs)))"
    unfolding greedy_end_def by metis
  then show ?thesis by simp
qed

lemma exec_from_Some_leftmost:
  assumes "exec_from f r b xs = Some (sk, st)" "xs = ys @ zs" "length ys < length sk"
  shows "ms f r (rev ys @ b, zs, []) = []"
  using assms
proof (induction xs arbitrary: b sk ys)
  case Nil
  then show ?case by (auto split: list.splits)
next
  case (Cons x xs)
  show ?case
  proof (cases "ms f r (b, x # xs, [])")
    case Nil
    with Cons.prems(1) obtain sk' where sk': "exec_from f r (x # b) xs = Some (sk', st)" "sk = x # sk'"
      by auto
    show ?thesis
    proof (cases ys)
      case ysNil: Nil
      with Cons.prems(2) Nil show ?thesis by simp
    next
      case (Cons y ys')
      with Cons.prems(2,3) sk'(2) have "xs = ys' @ zs" "length ys' < length sk'" "y = x"
        by auto
      from Cons.IH [OF sk'(1) this(1,2)] Cons \<open>y = x\<close> show ?thesis by simp
    qed
  next
    case (Cons st' sts)
    with Cons.prems(1) have "sk = []" by auto
    with Cons.prems(3) show ?thesis by simp
  qed
qed

lemma exec_from_None_occ:
  assumes "implements f r P"
  shows "exec_from f r b xs = None \<longleftrightarrow> \<not> (\<exists>pre m post. occurrence P (rev b) xs pre m post)"
proof
  assume n: "exec_from f r b xs = None"
  show "\<not> (\<exists>pre m post. occurrence P (rev b) xs pre m post)"
  proof
    assume "\<exists>pre m post. occurrence P (rev b) xs pre m post"
    then obtain pre m post where o: "xs = pre @ m @ post" "line_start (rev b @ pre)" "P m"
      unfolding occurrence_def by blast
    have "line_start (rev (rev pre @ b))"
      using o(2) by simp
    with o(3) assms have "ms f r (rev pre @ b, m @ post, []) \<noteq> []"
      unfolding implements_def by blast
    moreover have "ms f r (rev pre @ b, m @ post, []) = []"
      using n o(1) unfolding exec_from_None_iff by blast
    ultimately show False by simp
  qed
next
  assume no: "\<not> (\<exists>pre m post. occurrence P (rev b) xs pre m post)"
  show "exec_from f r b xs = None"
    unfolding exec_from_None_iff
  proof (intro allI impI)
    fix ys zs
    assume x: "xs = ys @ zs"
    show "ms f r (rev ys @ b, zs, []) = []"
    proof (rule ccontr)
      assume "ms f r (rev ys @ b, zs, []) \<noteq> []"
      then obtain b' rest cs where "(b', rest, cs) \<in> set (ms f r (rev ys @ b, zs, []))"
        unfolding ne_iff_mem by auto
      with assms have "line_start (rev (rev ys @ b))" "\<exists>m. zs = m @ rest \<and> P m"
        unfolding implements_def by blast+
      then obtain m where "zs = m @ rest" "P m" "line_start (rev b @ ys)"
        by auto
      with x have "occurrence P (rev b) xs ys m rest"
        unfolding occurrence_def by simp
      with no show False by blast
    qed
  qed
qed

lemma exec_from_Some_occ:
  assumes "implements f r P" and "exec_from f r b xs = Some (sk, (b', rest, cs))"
  shows "\<exists>m. first_occurrence P (rev b) xs sk m rest \<and> b' = rev m @ rev sk @ b \<and> m \<noteq> []"
proof -
  from exec_from_Some [OF assms(2)] obtain zs where
    zs: "xs = sk @ zs" "ms f r (rev sk @ b, zs, []) \<noteq> []"
    "(b', rest, cs) = hd (ms f r (rev sk @ b, zs, []))" by blast
  then have mem: "(b', rest, cs) \<in> set (ms f r (rev sk @ b, zs, []))"
    by simp
  from ms_consumes [OF mem] obtain m where m: "zs = m @ rest" "b' = rev m @ rev sk @ b"
    by blast
  from mem assms(1) have "line_start (rev (rev sk @ b))" "\<exists>m'. zs = m' @ rest \<and> P m'"
    unfolding implements_def by blast+
  with m(1) have ls: "line_start (rev b @ sk)" and P: "P m"
    by auto
  have occ: "occurrence P (rev b) xs sk m rest"
    unfolding occurrence_def using zs(1) m(1) ls P by simp
  have least: "length sk \<le> length pre'" if o: "occurrence P (rev b) xs pre' m' post'" for pre' m' post'
  proof (rule ccontr)
    assume "\<not> length sk \<le> length pre'"
    then have lt: "length pre' < length sk" by simp
    from o have x: "xs = pre' @ m' @ post'" and l: "line_start (rev (rev pre' @ b))" and p: "P m'"
      unfolding occurrence_def by simp_all
    from exec_from_Some_leftmost [OF assms(2) x lt]
    have "ms f r (rev pre' @ b, m' @ post', []) = []" .
    moreover from l p assms(1) have "ms f r (rev pre' @ b, m' @ post', []) \<noteq> []"
      unfolding implements_def by blast
    ultimately show False by simp
  qed
  have "m \<noteq> []"
    using P assms(1) unfolding implements_def by blast
  with occ least m(2) show ?thesis
    unfolding first_occurrence_def by blast
qed

lemma replace_first_spec:
  assumes "implements f r P" "greedy_end f T r"
  shows "removes_first P T s (replace_first f r s)"
proof (cases "exec f r s")
  case None
  then have "\<not> (\<exists>pre m post. occurrence P [] s pre m post)"
    using exec_from_None_occ [OF assms(1), of "[]" s] by (simp add: exec_def)
  with None show ?thesis
    by (simp add: removes_first_def replace_first_def)
next
  case (Some a)
  then obtain sk b' rest cs where a: "exec f r s = Some (sk, (b', rest, cs))"
    by (cases a) auto
  from exec_from_Some_occ [OF assms(1) a [unfolded exec_def]]
  obtain m where m: "first_occurrence P [] s sk m rest" by auto
  then have "\<exists>pre m post. occurrence P [] s pre m post"
    unfolding first_occurrence_def by blast
  moreover have "replace_first f r s = sk @ rest"
    using a by (simp add: replace_first_def)
  moreover have "ends_token T rest"
    using exec_from_Some_greedy [OF assms(2) a [unfolded exec_def]] .
  ultimately show ?thesis
    unfolding removes_first_def using m by auto
qed

lemma replace_all_from_spec:
  "implements f r P \<Longrightarrow> greedy_end f T r \<Longrightarrow>
   removes_each P T (rev b) xs (replace_all_from f r b xs)"
proof (induction f r b xs rule: replace_all_from.induct)
  case (1 f r b xs)
  note imp = \<open>implements f r P\<close> and gr = \<open>greedy_end f T r\<close>
  show ?case
  proof (cases "exec_from f r b xs")
    case None
    then have "replace_all_from f r b xs = xs"
      by (subst replace_all_from.simps) simp
    moreover have "\<not> (\<exists>pre m post. occurrence P (rev b) xs pre m post)"
      using exec_from_None_occ [OF imp, of b xs] None by simp
    ultimately show ?thesis
      by (simp add: removes_each.none)
  next
    case (Some a)
    then obtain sk b' rest cs where a: "exec_from f r b xs = Some (sk, (b', rest, cs))"
      by (cases a) auto
    from exec_from_Some_occ [OF imp a] obtain m where
      m: "first_occurrence P (rev b) xs sk m rest" "b' = rev m @ rev sk @ b" "m \<noteq> []"
      by blast
    then have x: "xs = sk @ m @ rest"
      unfolding first_occurrence_def occurrence_def by blast
    with m(3) have lt: "length rest < length xs - length sk"
      by simp
    have eq: "replace_all_from f r b xs = sk @ replace_all_from f r b' rest"
      using a lt by (subst replace_all_from.simps) simp
    have "removes_each P T (rev b') rest (replace_all_from f r b' rest)"
      using "1.IH"(1) [OF a refl refl refl lt imp gr] .
    then have "removes_each P T (rev b @ sk @ m) rest (replace_all_from f r b' rest)"
      using m(2) by simp
    from removes_each.step [OF m(1) exec_from_Some_greedy [OF gr a] this] show ?thesis
      unfolding eq .
  qed
qed

lemma replace_all_spec:
  "implements f r P \<Longrightarrow> greedy_end f T r \<Longrightarrow> removes_each P T [] s (replace_all f r s)"
  using replace_all_from_spec [of f r P T "[]" s] by (simp add: replace_all_def)

lemma ms_den:
  "(\<exists>cs'. (b', xs', cs') \<in> set (ms f r (b, xs, cs))) \<longleftrightarrow>
   (\<exists>m. xs = m @ xs' \<and> b' = rev m @ b \<and> den f r (rev b) m xs')"
proof (induction r arbitrary: b xs cs b' xs')
  case Eps
  show ?case by (auto simp: mem_Eps)
next
  case (Atom c)
  show ?case by (auto simp: ms.simps mem_one)
next
  case (Lit w)
  show ?case unfolding mem_Lit by auto
next
  case (Star c)
  show ?case unfolding mem_Star by (auto simp: list_all_iff)
next
  case (Plus c)
  show ?case unfolding mem_plus by (auto simp: list_all_iff)
next
  case (Opt c)
  show ?case unfolding mem_Opt by auto
next
  case (Seq r1 r2)
  show ?case
  proof
    assume "\<exists>cs'. (b', xs', cs') \<in> set (ms f (Seq r1 r2) (b, xs, cs))"
    then obtain cs' b1 xs1 cs1 where
      1: "(b1, xs1, cs1) \<in> set (ms f r1 (b, xs, cs))" and
      2: "(b', xs', cs') \<in> set (ms f r2 (b1, xs1, cs1))"
      unfolding mem_Seq by auto
    from 1 Seq.IH(1) [of b1 xs1 b xs cs] obtain m1 where
      m1: "xs = m1 @ xs1" "b1 = rev m1 @ b" "den f r1 (rev b) m1 xs1" by blast
    from 2 Seq.IH(2) [of b' xs' b1 xs1 cs1] obtain m2 where
      m2: "xs1 = m2 @ xs'" "b' = rev m2 @ b1" "den f r2 (rev b1) m2 xs'" by blast
    have "xs = (m1 @ m2) @ xs'" "b' = rev (m1 @ m2) @ b"
      using m1 m2 by simp_all
    moreover have "den f (Seq r1 r2) (rev b) (m1 @ m2) xs'"
      using m1 m2 by auto
    ultimately show "\<exists>m. xs = m @ xs' \<and> b' = rev m @ b \<and> den f (Seq r1 r2) (rev b) m xs'"
      by blast
  next
    assume "\<exists>m. xs = m @ xs' \<and> b' = rev m @ b \<and> den f (Seq r1 r2) (rev b) m xs'"
    then obtain m1 m2 where m: "xs = (m1 @ m2) @ xs'" "b' = rev (m1 @ m2) @ b"
      "den f r1 (rev b) m1 (m2 @ xs')" "den f r2 (rev b @ m1) m2 xs'"
      by auto
    have "\<exists>cs1. (rev m1 @ b, m2 @ xs', cs1) \<in> set (ms f r1 (b, xs, cs))"
      unfolding Seq.IH(1) using m(1,3) by simp
    then obtain cs1 where 1: "(rev m1 @ b, m2 @ xs', cs1) \<in> set (ms f r1 (b, xs, cs))" ..
    have "\<exists>cs'. (b', xs', cs') \<in> set (ms f r2 (rev m1 @ b, m2 @ xs', cs1))"
      unfolding Seq.IH(2) using m(2,4) by simp
    then obtain cs' where 2: "(b', xs', cs') \<in> set (ms f r2 (rev m1 @ b, m2 @ xs', cs1))" ..
    from 1 2 show "\<exists>cs'. (b', xs', cs') \<in> set (ms f (Seq r1 r2) (b, xs, cs))"
      unfolding mem_Seq by blast
  qed
next
  case (Alt r1 r2)
  show ?case
    unfolding mem_Alt den.simps ex_disj_distrib Alt.IH by blast
next
  case Bol
  show ?case unfolding mem_Bol by (auto simp: last_rev)
next
  case Eol
  show ?case unfolding mem_Eol by auto
next
  case (Grp n r)
  have "(\<exists>cs'. (b', xs', cs') \<in> set (ms f (Grp n r) (b, xs, cs))) \<longleftrightarrow>
        (\<exists>cs'. (b', xs', cs') \<in> set (ms f r (b, xs, cs)))"
    unfolding mem_Grp by auto
  then show ?case
    using Grp.IH by simp
qed

lemma implements_den:
  assumes "\<And>before m after. den f r before m after \<longleftrightarrow> line_start before \<and> P m"
    and "\<And>m. P m \<Longrightarrow> m \<noteq> []"
  shows "implements f r P"
  unfolding implements_def
proof (intro conjI allI impI)
  fix b xs b' rest cs
  assume "(b', rest, cs) \<in> set (ms f r (b, xs, []))"
  then have "\<exists>cs'. (b', rest, cs') \<in> set (ms f r (b, xs, []))" ..
  then obtain m where m: "xs = m @ rest" "den f r (rev b) m rest"
    unfolding ms_den by blast
  then show "line_start (rev b)" "\<exists>m. xs = m @ rest \<and> P m"
    using assms(1) by blast+
next
  fix b m post
  assume "line_start (rev b) \<and> P m"
  then have "den f r (rev b) m post"
    using assms(1) by blast
  then have "\<exists>cs'. (rev m @ b, post, cs') \<in> set (ms f r (b, m @ post, []))"
    unfolding ms_den by blast
  then show "ms f r (b, m @ post, []) \<noteq> []"
    by auto
next
  fix m assume "P m"
  then show "m \<noteq> []" by (rule assms(2))
qed

lemma den_seqs_Nil: "den f (seqs []) before m after \<longleftrightarrow> m = []"
  by (simp add: seqs_def)

lemma den_seqs_Cons:
  "den f (seqs (r # rs)) before m after \<longleftrightarrow>
     (\<exists>m1 m2. m = m1 @ m2 \<and> den f r before m1 (m2 @ after) \<and>
        den f (seqs rs) (before @ m1) m2 after)"
  by (simp add: seqs_def)

lemma flags_im_simps: "multiline flags_im" "ignoreCase flags_im"
  by (simp_all add: flags_im_def)

lemma list_all2_keyword: "list_all2 (char_eq flags_im) w m \<longleftrightarrow> keyword w m"
  unfolding keyword_def
  by (induction w arbitrary: m)
    (auto simp: list_all2_Cons1 char_eq_def flags_im_simps Cons_eq_map_conv)

lemma den_Lit_im: "den flags_im (Lit w) before m after \<longleftrightarrow> keyword w m"
  by (simp add: list_all2_keyword)

lemma canonicalize_other:
  assumes "c \<notin> set ''abcdefghijklmnopqrstuvwxyz''" "c \<notin> set ''ABCDEFGHIJKLMNOPQRSTUVWXYZ''"
  shows "canonicalize x = canonicalize c \<longleftrightarrow> x = c"
proof -
  let ?lower = "''abcdefghijklmnopqrstuvwxyz''" and ?upper = "''ABCDEFGHIJKLMNOPQRSTUVWXYZ''"
  have len: "length ?lower = length ?upper" by simp
  have "map_of (zip ?lower ?upper) c = None"
    using assms(1) map_of_zip_is_None [OF len, of c] by blast
  then have c: "canonicalize c = c"
    by (simp only: canonicalize_def option.case)
  have "x = c" if h: "canonicalize x = c"
  proof (cases "map_of (zip ?lower ?upper) x")
    case None
    then have "canonicalize x = x" by (simp only: canonicalize_def option.case)
    with h show ?thesis by simp
  next
    case (Some u)
    then have "canonicalize x = u" by (simp only: canonicalize_def option.case)
    moreover from Some have "(x, u) \<in> set (zip ?lower ?upper)" by (rule map_of_SomeD)
    then have "u \<in> set ?upper" by (rule set_zip_rightD)
    ultimately show ?thesis using h assms(2) by blast
  qed
  with c show ?thesis by auto
qed

lemma canonicalize_fixed:
  "canonicalize x = canonicalize CHR '':'' \<longleftrightarrow> x = CHR '':''"
  "canonicalize x = canonicalize CHR ''#'' \<longleftrightarrow> x = CHR ''#''"
  "canonicalize x = canonicalize CHR ''@'' \<longleftrightarrow> x = CHR ''@''"
  by (rule canonicalize_other; simp)+

lemma keyword_colon: "keyword '':'' m \<longleftrightarrow> m = '':''"
  unfolding keyword_def by (auto simp: canonicalize_fixed Cons_eq_map_conv map_eq_Cons_conv)

lemma den_Opt_im:
  "den flags_im (Opt (Ch CHR ''#'')) before m after \<longleftrightarrow> m = [] \<or> m = ''#''"
  "den flags_im (Opt (Ch CHR ''@'')) before m after \<longleftrightarrow> m = [] \<or> m = ''@''"
  by (auto simp: char_eq_def flags_im_simps canonicalize_fixed)

lemma den_Bol_im: "den flags_im Bol before m after \<longleftrightarrow> m = [] \<and> line_start before"
  by (auto simp: line_start_def flags_im_simps)

lemma den_pr_keyword:
  "den flags_im (Alt (Lit ''pr'') (Alt (Lit ''pull'')
      (seqs [Lit ''pull'', Plus Space, Lit ''request'']))) before m after \<longleftrightarrow> pr_keyword m"
  unfolding pr_keyword_def den.simps(8) den_seqs_Cons den_seqs_Nil den_Lit_im den.simps(5)
    in_class.simps
  by auto

lemma in_class_fun:
  "in_class f Space = is_space" "in_class f Digit = is_digit"
  "in_class f NonSpace = (\<lambda>c. \<not> is_space c)"
  by (simp_all add: fun_eq_iff)

lemma den_pr_regex: "den flags_im pr_regex before m after \<longleftrightarrow> line_start before \<and> pr_prefix m"
proof -
  have "den flags_im pr_regex before m after \<longleftrightarrow>
    (\<exists>m0 m0'. m = m0 @ m0' \<and> (m0 = [] \<and> line_start before) \<and>
      (\<exists>ws m1. m0' = ws @ m1 \<and> list_all is_space ws \<and>
        (\<exists>kw m2. m1 = kw @ m2 \<and> pr_keyword kw \<and>
          (\<exists>c m3. m2 = c @ m3 \<and> c = '':'' \<and>
            (\<exists>ws' m4. m3 = ws' @ m4 \<and> list_all is_space ws' \<and>
              (\<exists>h m5. m4 = h @ m5 \<and> (h = [] \<or> h = ''#'') \<and>
                (\<exists>ds m6. m5 = ds @ m6 \<and> (ds \<noteq> [] \<and> list_all is_digit ds) \<and> m6 = [])))))))"
    unfolding pr_regex_def den_seqs_Cons den_seqs_Nil den_Bol_im den.simps(4) den_pr_keyword
      den_Lit_im keyword_colon den_Opt_im den.simps(11) den.simps(5) in_class_fun ..
  also have "\<dots> \<longleftrightarrow> line_start before \<and> pr_prefix m"
    unfolding pr_prefix_def by (simp add: ex_simps) blast
  finally show ?thesis .
qed

lemma den_commit_regex:
  "den flags_im commit_regex before m after \<longleftrightarrow> line_start before \<and> commit_prefix m"
proof -
  have "den flags_im commit_regex before m after \<longleftrightarrow>
    (\<exists>m0 m0'. m = m0 @ m0' \<and> (m0 = [] \<and> line_start before) \<and>
      (\<exists>ws m1. m0' = ws @ m1 \<and> list_all is_space ws \<and>
        (\<exists>kw m2. m1 = kw @ m2 \<and> keyword ''commit'' kw \<and>
          (\<exists>c m3. m2 = c @ m3 \<and> c = '':'' \<and>
            (\<exists>ws' m4. m3 = ws' @ m4 \<and> list_all is_space ws' \<and>
              (\<exists>tok m6. m4 = tok @ m6 \<and> (tok \<noteq> [] \<and> list_all (\<lambda>c. \<not> is_space c) tok) \<and>
                 m6 = []))))))"
    unfolding commit_regex_def den_seqs_Cons den_seqs_Nil den_Bol_im den.simps(4)
      den_Lit_im keyword_colon den.simps(11) den.simps(5) in_class_fun ..
  also have "\<dots> \<longleftrightarrow> line_start before \<and> commit_prefix m"
    unfolding commit_prefix_def by (simp add: ex_simps) blast
  finally show ?thesis .
qed

lemma den_author_regex:
  "den flags_im author_regex before m after \<longleftrightarrow> line_start before \<and> author_prefix m"
proof -
  have "den flags_im author_regex before m after \<longleftrightarrow>
    (\<exists>m0 m0'. m = m0 @ m0' \<and> (m0 = [] \<and> line_start before) \<and>
      (\<exists>ws m1. m0' = ws @ m1 \<and> list_all is_space ws \<and>
        (\<exists>kw m2. m1 = kw @ m2 \<and> (keyword ''author'' kw \<or> keyword ''user'' kw) \<and>
          (\<exists>c m3. m2 = c @ m3 \<and> c = '':'' \<and>
            (\<exists>ws' m4. m3 = ws' @ m4 \<and> list_all is_space ws' \<and>
              (\<exists>h m5. m4 = h @ m5 \<and> (h = [] \<or> h = ''@'') \<and>
                (\<exists>tok m6. m5 = tok @ m6 \<and>
                   (tok \<noteq> [] \<and> list_all (\<lambda>c. \<not> is_space c) tok) \<and> m6 = [])))))))"
    unfolding author_regex_def den_seqs_Cons den_seqs_Nil den_Bol_im den.simps(4) den.simps(8)
      den_Lit_im keyword_colon den_Opt_im den.simps(11) den.simps(5) in_class_fun ..
  also have "\<dots> \<longleftrightarrow> line_start before \<and> author_prefix m"
    unfolding author_prefix_def by (simp add: ex_simps) blast
  finally show ?thesis .
qed

lemma implements_pr: "implements flags_im pr_regex pr_prefix"
  by (rule implements_den [OF den_pr_regex]) (auto simp: pr_prefix_def)

lemma implements_commit: "implements flags_im commit_regex commit_prefix"
  by (rule implements_den [OF den_commit_regex]) (auto simp: commit_prefix_def)

lemma implements_author: "implements flags_im author_regex author_prefix"
  by (rule implements_den [OF den_author_regex]) (auto simp: author_prefix_def)

lemma greedy_pr: "greedy_end flags_im is_digit pr_regex"
  unfolding pr_regex_def seqs_def foldr.simps comp_def id_apply
  by (rule greedy_end_Seq, rule greedy_end_Seq, rule greedy_end_Seq, rule greedy_end_Seq,
      rule greedy_end_Seq, rule greedy_end_Seq,
      rule greedy_end_Plus [of flags_im Digit, unfolded in_class_fun])

lemma greedy_commit: "greedy_end flags_im (\<lambda>c. \<not> is_space c) commit_regex"
  unfolding commit_regex_def seqs_def foldr.simps comp_def id_apply
  by (rule greedy_end_Seq, rule greedy_end_Seq, rule greedy_end_Seq, rule greedy_end_Seq,
      rule greedy_end_Seq,
      rule greedy_end_Plus [of flags_im NonSpace, unfolded in_class_fun])

lemma greedy_author: "greedy_end flags_im (\<lambda>c. \<not> is_space c) author_regex"
  unfolding author_regex_def seqs_def foldr.simps comp_def id_apply
  by (rule greedy_end_Seq, rule greedy_end_Seq, rule greedy_end_Seq, rule greedy_end_Seq,
      rule greedy_end_Seq, rule greedy_end_Seq,
      rule greedy_end_Plus [of flags_im NonSpace, unfolded in_class_fun])

lemma removes_first_unchanged:
  "removes_first P T s s' \<Longrightarrow> \<not> (\<exists>pre m post. occurrence P [] s pre m post) \<Longrightarrow> s' = s"
  by (simp add: removes_first_def)

lemma removes_each_unchanged:
  "removes_each P T before s s' \<Longrightarrow> \<not> (\<exists>pre m post. occurrence P before s pre m post) \<Longrightarrow>
   s' = s"
  by (induction rule: removes_each.induct) (auto simp: first_occurrence_def)

lemma cleanSummary_removes:
  "\<exists>s1 s2 s3. removes_first pr_prefix is_digit s s1 \<and>
     removes_first commit_prefix (\<lambda>c. \<not> is_space c) s1 s2 \<and>
     removes_each author_prefix (\<lambda>c. \<not> is_space c) [] s2 s3 \<and> cleanSummary s = trim s3"
  unfolding cleanSummary_def
  using replace_first_spec [OF implements_pr greedy_pr]
    replace_first_spec [OF implements_commit greedy_commit]
    replace_all_spec [OF implements_author greedy_author]
  by blast

lemma no_occurrence_exec:
  assumes "implements f r P" "exec f r s = None"
  shows "\<not> (\<exists>pre m post. occurrence P [] s pre m post)"
  using exec_from_None_occ [OF assms(1), of "[]" s] assms(2) by (simp add: exec_def)

lemma length_trim: "length (trim s) \<le> length s"
proof -
  have "length (trim s) \<le> length (dropWhile is_space s)"
    unfolding trim_def length_rev using length_dropWhile_le [of is_space "rev (dropWhile is_space s)"]
    by simp
  also have "\<dots> \<le> length s" by (rule length_dropWhile_le)
  finally show ?thesis .
qed

lemma removes_first_length:
  assumes "removes_first P T s s'" "\<And>m. P m \<Longrightarrow> m \<noteq> []"
  shows "length s' \<le> length s"
    and "\<exists>pre m post. occurrence P [] s pre m post \<Longrightarrow> length s' < length s"
proof -
  have *: "length s' < length s" if "\<exists>pre m post. occurrence P [] s pre m post"
  proof -
    from assms(1) that obtain pre m post where "first_occurrence P [] s pre m post" "s' = pre @ post"
      unfolding removes_first_def by auto
    then have "s = pre @ m @ post" "P m" "s' = pre @ post"
      unfolding first_occurrence_def occurrence_def by auto
    with assms(2) [of m] show ?thesis by simp
  qed
  then show "\<exists>pre m post. occurrence P [] s pre m post \<Longrightarrow> length s' < length s" .
  show "length s' \<le> length s"
  proof (cases "\<exists>pre m post. occurrence P [] s pre m post")
    case True
    with * show ?thesis by simp
  next
    case False
    with assms(1) show ?thesis by (simp add: removes_first_def)
  qed
qed

lemma removes_each_length:
  assumes "removes_each P T before s s'" "\<And>m. P m \<Longrightarrow> m \<noteq> []"
  shows "length s' \<le> length s \<and>
    ((\<exists>pre m post. occurrence P before s pre m post) \<longrightarrow> length s' < length s)"
  using assms(1)
proof (induction rule: removes_each.induct)
  case (none before s)
  then show ?case by simp
next
  case (step before s pre m post out)
  from step.hyps(1) have "s = pre @ m @ post" "P m"
    unfolding first_occurrence_def occurrence_def by auto
  moreover from step.IH have "length out \<le> length post" ..
  moreover from \<open>P m\<close> obtain x m' where "m = x # m'"
    using assms(2) [of m] by (cases m) auto
  ultimately have "length (pre @ out) < length s"
    by simp
  then show ?case by simp
qed

lemma prefix_nonempty:
  "pr_prefix m \<Longrightarrow> m \<noteq> []" "commit_prefix m \<Longrightarrow> m \<noteq> []" "author_prefix m \<Longrightarrow> m \<noteq> []"
  by (auto simp: pr_prefix_def commit_prefix_def author_prefix_def)

lemma cleanSummary_unchanged:
  assumes "\<not> (\<exists>pre m post. occurrence pr_prefix [] s pre m post)"
    "\<not> (\<exists>pre m post. occurrence commit_prefix [] s pre m post)"
    "\<not> (\<exists>pre m post. occurrence author_prefix [] s pre m post)"
  shows "cleanSummary s = trim s"
proof -
  from cleanSummary_removes [of s] obtain s1 s2 s3 where
    r: "removes_first pr_prefix is_digit s s1"
    "removes_first commit_prefix (\<lambda>c. \<not> is_space c) s1 s2"
    "removes_each author_prefix (\<lambda>c. \<not> is_space c) [] s2 s3" "cleanSummary s = trim s3"
    by blast
  from removes_first_unchanged [OF r(1) assms(1)] have 1: "s1 = s" .
  from removes_first_unchanged [OF r(2) [unfolded 1] assms(2)] have 2: "s2 = s" .
  from removes_each_unchanged [OF r(3) [unfolded 2] assms(3)] have 3: "s3 = s" .
  from r(4) 3 show ?thesis by simp
qed

lemma cleanSummary_shorter:
  assumes "(\<exists>pre m post. occurrence pr_prefix [] s pre m post) \<or>
    (\<exists>pre m post. occurrence commit_prefix [] s pre m post) \<or>
    (\<exists>pre m post. occurrence author_prefix [] s pre m post)"
  shows "length (cleanSummary s) < length s"
proof -
  from cleanSummary_removes [of s] obtain s1 s2 s3 where
    r: "removes_first pr_prefix is_digit s s1"
    "removes_first commit_prefix (\<lambda>c. \<not> is_space c) s1 s2"
    "removes_each author_prefix (\<lambda>c. \<not> is_space c) [] s2 s3" "cleanSummary s = trim s3"
    by blast
  note l1 = removes_first_length [OF r(1) prefix_nonempty(1)]
  note l2 = removes_first_length [OF r(2) prefix_nonempty(2)]
  note l3 = removes_each_length [OF r(3) prefix_nonempty(3)]
  have t: "length (cleanSummary s) \<le> length s3"
    unfolding r(4) by (rule length_trim)
  show ?thesis
  proof (cases "\<exists>pre m post. occurrence pr_prefix [] s pre m post")
    case True
    with l1(2) l2(1) l3 t show ?thesis by simp
  next
    case no1: False
    with removes_first_unchanged [OF r(1)] have 1: "s1 = s" by blast
    show ?thesis
    proof (cases "\<exists>pre m post. occurrence commit_prefix [] s pre m post")
      case True
      with l2(2) 1 l3 t show ?thesis by simp
    next
      case no2: False
      with removes_first_unchanged [OF r(2)] 1 have 2: "s2 = s" by blast
      from assms no1 no2 have "\<exists>pre m post. occurrence author_prefix [] s pre m post"
        by blast
      with l3 2 t show ?thesis by simp
    qed
  qed
qed

lemma errors_distinct: "MissingRepoError \<noteq> InvalidRepoFormatError"
  by (simp add: MissingRepoError_def InvalidRepoFormatError_def)


section \<open>The options\<close>

text \<open>
  Claim C8, as the specification states it, fails on a \<open>repo\<close> field that is present, is
  not a string and is falsy: for \<open>{repo: 0}\<close> and \<open>{repo: false}\<close> the error is the one of
  a missing \<open>repo\<close>, not the one of an invalid format.
\<close>

theorem validate_falsy_repo_counterexample:
  "validate (JObject [(''repo'', JNumber 0)]) = Inl MissingRepoError
   \<and> validate (JObject [(''repo'', JBoolean False)]) = Inl MissingRepoError
   \<and> validate (JObject [(''repo'', JNumber 0)]) \<noteq> Inl InvalidRepoFormatError"
  by (simp add: validate_def MissingRepoError_def InvalidRepoFormatError_def)


text \<open>
  Claim C8, amended. \<open>validate\<close> fails with the error of a missing \<open>repo\<close> exactly when
  the value is falsy or its \<open>repo\<close> field is falsy (missing, \<open>undefined\<close>, \<open>null\<close>,
  \<open>false\<close>, \<open>0\<close>, \<open>NaN\<close> or the empty string). It fails with the error of an invalid
  format exactly when \<open>repo\<close> is truthy and is not a string made of two non-empty
  segments without white space and without slash, separated by one slash. Otherwise it
  succeeds, and the options are then used with that \<open>repo\<close>.
\<close>

theorem validate_spec:
  "(validate v = Inl MissingRepoError \<longleftrightarrow> \<not> truthy v \<or> \<not> truthy (get_prop v ''repo''))
   \<and> (validate v = Inl InvalidRepoFormatError \<longleftrightarrow>
        truthy v \<and> truthy (get_prop v ''repo'') \<and>
        \<not> (\<exists>org rp. get_prop v ''repo'' = JString (org @ ''/'' @ rp) \<and> org \<noteq> [] \<and> rp \<noteq> [] \<and>
              (\<forall>c\<in>set (org @ rp). c \<noteq> CHR ''/'' \<and> \<not> is_space c)))
   \<and> (validate v = Inr opts \<longleftrightarrow>
        truthy v \<and>
        (\<exists>org rp. get_prop v ''repo'' = JString (org @ ''/'' @ rp) \<and> org \<noteq> [] \<and> rp \<noteq> [] \<and>
              (\<forall>c\<in>set (org @ rp). c \<noteq> CHR ''/'' \<and> \<not> is_space c) \<and>
              opts = \<lparr>repo = org @ ''/'' @ rp\<rparr>))"
proof (cases "get_prop v ''repo''")
  case (JString s)
  show ?thesis
  proof (cases "test no_flags ORG_REPO_REGEX s")
    case True
    then obtain org rp where o: "s = org @ ''/'' @ rp" "org \<noteq> []" "rp \<noteq> []"
      "\<forall>c\<in>set (org @ rp). c \<noteq> CHR ''/'' \<and> \<not> is_space c"
      unfolding test_ORG_REPO_REGEX by blast
    have v: "validate v = (if truthy v then Inr \<lparr>repo = s\<rparr> else Inl MissingRepoError)"
      using JString True o(1) by (simp add: validate_def)
    have "get_prop v ''repo'' = JString (org @ ''/'' @ rp)"
      using JString o(1) by simp
    then have ex: "\<exists>org rp. get_prop v ''repo'' = JString (org @ ''/'' @ rp) \<and> org \<noteq> [] \<and> rp \<noteq> [] \<and>
              (\<forall>c\<in>set (org @ rp). c \<noteq> CHR ''/'' \<and> \<not> is_space c)"
      using o(2,3,4) by blast
    have ex': "(\<exists>org rp. get_prop v ''repo'' = JString (org @ ''/'' @ rp) \<and> org \<noteq> [] \<and> rp \<noteq> [] \<and>
              (\<forall>c\<in>set (org @ rp). c \<noteq> CHR ''/'' \<and> \<not> is_space c) \<and>
              opts = \<lparr>repo = org @ ''/'' @ rp\<rparr>) \<longleftrightarrow> opts = \<lparr>repo = s\<rparr>"
      (is "?A \<longleftrightarrow> ?B")
    proof
      assume ?A
      then obtain org' rp' where "get_prop v ''repo'' = JString (org' @ ''/'' @ rp')"
        "opts = \<lparr>repo = org' @ ''/'' @ rp'\<rparr>" by blast
      with JString show ?B by simp
    next
      assume ?B
      moreover have "get_prop v ''repo'' = JString (org @ ''/'' @ rp)"
        using JString o(1) by simp
      ultimately show ?A
        using o(1,2,3,4) by blast
    qed
    have tr: "truthy (get_prop v ''repo'')"
      using JString o(1) by simp
    have "validate v = Inr opts \<longleftrightarrow> truthy v \<and> opts = \<lparr>repo = s\<rparr>"
      using v by auto
    moreover have "validate v = Inl MissingRepoError \<longleftrightarrow> \<not> truthy v"
      using v by simp
    moreover have "validate v \<noteq> Inl InvalidRepoFormatError"
      using v by (simp add: errors_distinct)
    ultimately show ?thesis
      unfolding ex' using ex tr by blast
  next
    case False
    then have no: "\<not> (\<exists>org rp. s = org @ ''/'' @ rp \<and> org \<noteq> [] \<and> rp \<noteq> [] \<and>
              (\<forall>c\<in>set (org @ rp). c \<noteq> CHR ''/'' \<and> \<not> is_space c))"
      unfolding test_ORG_REPO_REGEX .
    have v: "validate v = (if \<not> truthy v \<or> s = [] then Inl MissingRepoError
                           else Inl InvalidRepoFormatError)"
      using JString False by (simp add: validate_def)
    have ex: "\<not> (\<exists>org rp. get_prop v ''repo'' = JString (org @ ''/'' @ rp) \<and> org \<noteq> [] \<and> rp \<noteq> [] \<and>
              (\<forall>c\<in>set (org @ rp). c \<noteq> CHR ''/'' \<and> \<not> is_space c))"
      using no unfolding JString js_value.inject by blast
    have ex': "\<not> (\<exists>org rp. get_prop v ''repo'' = JString (org @ ''/'' @ rp) \<and> org \<noteq> [] \<and> rp \<noteq> [] \<and>
              (\<forall>c\<in>set (org @ rp). c \<noteq> CHR ''/'' \<and> \<not> is_space c) \<and>
              opts = \<lparr>repo = org @ ''/'' @ rp\<rparr>)"
      using ex by blast
    have tr: "truthy (get_prop v ''repo'') \<longleftrightarrow> s \<noteq> []"
      using JString by simp
    have "validate v \<noteq> Inr opts"
      using v by simp
    moreover have "validate v = Inl MissingRepoError \<longleftrightarrow> \<not> truthy v \<or> s = []"
      using v by (simp add: errors_distinct [symmetric])
    moreover have "validate v = Inl InvalidRepoFormatError \<longleftrightarrow> truthy v \<and> s \<noteq> []"
      using v by (simp add: errors_distinct)
    ultimately show ?thesis
      using ex ex' tr by blast
  qed
qed (auto simp: validate_def errors_distinct errors_distinct [symmetric])


theorem validate_spec_witness:
  "validate (JObject [(''repo'', JString ''owner/repo'')]) = Inr \<lparr>repo = ''owner/repo''\<rparr>
   \<and> validate JNull = Inl MissingRepoError
   \<and> validate (JObject [(''repo'', JNumber 123)]) = Inl InvalidRepoFormatError"
proof (intro conjI)
  show "validate (JObject [(''repo'', JString ''owner/repo'')]) = Inr \<lparr>repo = ''owner/repo''\<rparr>"
  proof (rule validate_spec [THEN conjunct2, THEN conjunct2, THEN iffD2])
    show "truthy (JObject [(''repo'', JString ''owner/repo'')]) \<and>
      (\<exists>org rp. get_prop (JObject [(''repo'', JString ''owner/repo'')]) ''repo'' =
           JString (org @ ''/'' @ rp) \<and> org \<noteq> [] \<and> rp \<noteq> [] \<and>
           (\<forall>c\<in>set (org @ rp). c \<noteq> CHR ''/'' \<and> \<not> is_space c) \<and>
           \<lparr>repo = ''owner/repo''\<rparr> = \<lparr>repo = org @ ''/'' @ rp\<rparr>)"
      by (rule conjI, simp, rule exI [of _ "''owner''"], rule exI [of _ "''repo''"])
        (simp add: is_space_def)
  qed
next
  show "validate JNull = Inl MissingRepoError"
    by (rule validate_spec [THEN conjunct1, THEN iffD2]) simp
next
  show "validate (JObject [(''repo'', JNumber 123)]) = Inl InvalidRepoFormatError"
    by (rule validate_spec [THEN conjunct2, THEN conjunct1, THEN iffD2]) simp
qed

section \<open>The pull-request number\<close>

text \<open>
  Claim C6. \<open>getPrNumber\<close> of no message is nothing. Of a message it returns a number
  exactly when the first line (the text before the first line feed), trimmed, ends with
  \<open>(#digits)\<close> or with \<open>#digits\<close> for a non-empty run of decimal digits, and the number
  is then what \<^verbatim>\<open>Number.parseInt\<close> makes of those digits: the number they denote when
  it is below \<open>2 ^ 53\<close>, the double nearest to it in general. Whatever stands before that
  reference, other references included, has no influence: the reference at the end of
  the line is the one taken, and a line that does not end with one gives nothing.
\<close>

theorem getPrNumber_spec:
  "getPrNumber None = None \<and>
   (getPrNumber (Some m) = Some n \<longleftrightarrow>
     (\<exists>p ds. ds \<noteq> [] \<and> (\<forall>d\<in>set ds. is_digit d) \<and> n = parseInt10 ds \<and>
        (trim (takeWhile (\<lambda>c. c \<noteq> CHR 0x0A) m) = p @ ''(#'' @ ds @ '')'' \<or>
         trim (takeWhile (\<lambda>c. c \<noteq> CHR 0x0A) m) = p @ ''#'' @ ds))) \<and>
   (digits_value ds < 2 ^ 53 \<longrightarrow> parseInt10 ds = Finite (digits_value ds))"
  (is "_ \<and> (?L \<longleftrightarrow> ?R) \<and> _")
proof (intro conjI)
  show "getPrNumber None = None"
    by (simp add: getPrNumber_def str_truthy_def)
next
  show "digits_value ds < 2 ^ 53 \<longrightarrow> parseInt10 ds = Finite (digits_value ds)"
    by (simp add: parseInt10_def to_double_def)
next
  let ?l = "trim (takeWhile (\<lambda>c. c \<noteq> CHR 0x0A) m)"
  have nil: "m = [] \<Longrightarrow> ?l = []" by (simp add: trim_def)
  have unfold: "getPrNumber (Some m) =
      (case exec no_flags pr_number_regex ?l of
         None \<Rightarrow> None
       | Some (sk, st) \<Rightarrow>
           if str_truthy (or_else (group st 1) (group st 2))
           then Some (parseInt10 (the (or_else (group st 1) (group st 2)))) else None)"
    if "m \<noteq> []"
    using that by (simp add: getPrNumber_def str_truthy_def hd_split_nl Let_def split: option.splits)
  show "?L \<longleftrightarrow> ?R"
  proof
    assume l: ?L
    then have m: "m \<noteq> []"
      by (auto simp: getPrNumber_def str_truthy_def)
    from l unfold [OF m] obtain sk st where ex: "exec no_flags pr_number_regex ?l = Some (sk, st)"
      by (auto split: option.splits)
    from exec_pr_number_Some [OF ex] obtain ds where ds: "ds \<noteq> []" "\<forall>d\<in>set ds. is_digit d"
      "or_else (group st 1) (group st 2) = Some ds"
      "?l = sk @ ''(#'' @ ds @ '')'' \<or> (\<exists>ws. ?l = sk @ ''#'' @ ds @ ws \<and> (\<forall>w\<in>set ws. is_space w))"
      by blast
    have n: "n = parseInt10 ds"
      using l unfold [OF m] ex ds(1,3) by (simp add: str_truthy_def)
    from ds(4) have "?l = sk @ ''(#'' @ ds @ '')'' \<or> ?l = sk @ ''#'' @ ds"
    proof
      assume "\<exists>ws. ?l = sk @ ''#'' @ ds @ ws \<and> (\<forall>w\<in>set ws. is_space w)"
      then obtain ws where ws: "?l = (sk @ ''#'' @ ds) @ ws" "\<forall>w\<in>set ws. is_space w"
        by auto
      from trim_no_trailing_space [OF this] ws(1) show ?thesis by simp
    qed simp
    with ds(1,2) n show ?R by blast
  next
    assume ?R
    then obtain p ds where h: "ds \<noteq> []" "\<forall>d\<in>set ds. is_digit d" "n = parseInt10 ds"
      "?l = p @ ''(#'' @ ds @ '')'' \<or> ?l = p @ ''#'' @ ds" by blast
    then have "?l \<noteq> []" by auto
    with nil have m: "m \<noteq> []" by blast
    from exec_pr_number_ex [OF h(1,2,4)] obtain sk st where
      ex: "exec no_flags pr_number_regex ?l = Some (sk, st)" by auto
    from exec_pr_number_Some [OF ex] obtain ds' where ds': "ds' \<noteq> []" "\<forall>d\<in>set ds'. is_digit d"
      "or_else (group st 1) (group st 2) = Some ds'"
      "?l = sk @ ''(#'' @ ds' @ '')'' \<or> (\<exists>ws. ?l = sk @ ''#'' @ ds' @ ws \<and> (\<forall>w\<in>set ws. is_space w))"
      by blast
    have res: "getPrNumber (Some m) = Some (parseInt10 ds')"
      using unfold [OF m] ex ds'(1,3) by (simp add: str_truthy_def)
    from ds'(4) have form: "?l = sk @ ''(#'' @ ds' @ '')'' \<or> ?l = sk @ ''#'' @ ds'"
    proof
      assume "\<exists>ws. ?l = sk @ ''#'' @ ds' @ ws \<and> (\<forall>w\<in>set ws. is_space w)"
      then obtain ws where ws: "?l = (sk @ ''#'' @ ds') @ ws" "\<forall>w\<in>set ws. is_space w"
        by auto
      from trim_no_trailing_space [OF this] ws(1) show ?thesis by simp
    qed simp
    have ld: "is_digit (last ds)" "is_digit (last ds')"
      using h(1,2) ds'(1,2) by simp_all
    have "ds' = ds"
    proof -
      consider (aa) "?l = p @ ''(#'' @ ds @ '')''" "?l = sk @ ''(#'' @ ds' @ '')''"
        | (ab) "?l = p @ ''(#'' @ ds @ '')''" "?l = sk @ ''#'' @ ds'"
        | (ba) "?l = p @ ''#'' @ ds" "?l = sk @ ''(#'' @ ds' @ '')''"
        | (bb) "?l = p @ ''#'' @ ds" "?l = sk @ ''#'' @ ds'"
        using h(4) form by blast
      then show ?thesis
      proof cases
        case aa
        then have "(sk @ ''('') @ CHR ''#'' # ds' = (p @ ''('') @ CHR ''#'' # ds"
          by simp
        then show ?thesis
          using trailing_digits_unique ds'(2) h(2) by blast
      next
        case ab
        then have "last (p @ ''(#'' @ ds @ '')'') = last (sk @ ''#'' @ ds')"
          by simp
        then have "last ds' = CHR '')''"
          using ds'(1) by simp
        with ld(2) have False by simp
        then show ?thesis ..
      next
        case ba
        then have "last (p @ ''#'' @ ds) = last (sk @ ''(#'' @ ds' @ '')'')"
          by simp
        then have "last ds = CHR '')''"
          using h(1) by simp
        with ld(1) have False by simp
        then show ?thesis ..
      next
        case bb
        then have "sk @ CHR ''#'' # ds' = p @ CHR ''#'' # ds"
          by simp
        then show ?thesis
          using trailing_digits_unique ds'(2) h(2) by blast
      qed
    qed
    with res h(3) show ?L by simp
  qed
qed


theorem getPrNumber_spec_witness:
  "getPrNumber (Some ''feat: Add new feature (closes #456) (#789)'') = Some (Finite 789)
   \<and> getPrNumber (Some ''fix: Update dependency #42  \<newline>see #7'') = Some (Finite 42)
   \<and> getPrNumber (Some ''x (#9007199254740993)'') = Some (Finite 9007199254740992)"
proof (intro conjI)
  have 789: "parseInt10 ''789'' = Finite 789"
    using getPrNumber_spec [THEN conjunct2, THEN conjunct2, of "''789''"]
    by (simp add: digits_value_def digit_val_def)
  show "getPrNumber (Some ''feat: Add new feature (closes #456) (#789)'') = Some (Finite 789)"
  proof (rule getPrNumber_spec [THEN conjunct2, THEN conjunct1, THEN iffD2])
    show "\<exists>p ds. ds \<noteq> [] \<and> (\<forall>d\<in>set ds. is_digit d) \<and> Finite 789 = parseInt10 ds \<and>
        (trim (takeWhile (\<lambda>c. c \<noteq> CHR 0x0A) ''feat: Add new feature (closes #456) (#789)'') =
           p @ ''(#'' @ ds @ '')'' \<or>
         trim (takeWhile (\<lambda>c. c \<noteq> CHR 0x0A) ''feat: Add new feature (closes #456) (#789)'') =
           p @ ''#'' @ ds)"
      by (rule exI [of _ "''feat: Add new feature (closes #456) ''"], rule exI [of _ "''789''"])
        (simp add: is_digit_def 789 trim_def is_space_def)
  qed
next
  have 42: "parseInt10 ''42'' = Finite 42"
    using getPrNumber_spec [THEN conjunct2, THEN conjunct2, of "''42''"]
    by (simp add: digits_value_def digit_val_def)
  show "getPrNumber (Some ''fix: Update dependency #42  \<newline>see #7'') = Some (Finite 42)"
  proof (rule getPrNumber_spec [THEN conjunct2, THEN conjunct1, THEN iffD2])
    show "\<exists>p ds. ds \<noteq> [] \<and> (\<forall>d\<in>set ds. is_digit d) \<and> Finite 42 = parseInt10 ds \<and>
        (trim (takeWhile (\<lambda>c. c \<noteq> CHR 0x0A) ''fix: Update dependency #42  \<newline>see #7'') =
           p @ ''(#'' @ ds @ '')'' \<or>
         trim (takeWhile (\<lambda>c. c \<noteq> CHR 0x0A) ''fix: Update dependency #42  \<newline>see #7'') =
           p @ ''#'' @ ds)"
      by (rule exI [of _ "''fix: Update dependency ''"], rule exI [of _ "''42''"])
        (simp add: is_digit_def 42 trim_def is_space_def)
  qed
next
  have big: "parseInt10 ''9007199254740993'' = Finite 9007199254740992"
    by (simp add: parseInt10_def to_double_def digits_value_def digit_val_def bitlen.simps Let_def)
  show "getPrNumber (Some ''x (#9007199254740993)'') = Some (Finite 9007199254740992)"
  proof (rule getPrNumber_spec [THEN conjunct2, THEN conjunct1, THEN iffD2])
    show "\<exists>p ds. ds \<noteq> [] \<and> (\<forall>d\<in>set ds. is_digit d) \<and>
        Finite 9007199254740992 = parseInt10 ds \<and>
        (trim (takeWhile (\<lambda>c. c \<noteq> CHR 0x0A) ''x (#9007199254740993)'') = p @ ''(#'' @ ds @ '')'' \<or>
         trim (takeWhile (\<lambda>c. c \<noteq> CHR 0x0A) ''x (#9007199254740993)'') = p @ ''#'' @ ds)"
      by (rule exI [of _ "''x ''"], rule exI [of _ "''9007199254740993''"])
        (simp add: is_digit_def big trim_def is_space_def)
  qed
qed

section \<open>The suffix\<close>

text \<open>
  Claim C10. \<open>getSuffix\<close> tests its arguments for truthiness: the pull-request number 0
  counts as no number and the empty commit hash as no hash. For every hash, number and
  options, \<open>getSuffix(0, sha, opts)\<close> is \<open>getSuffix(undefined, sha, opts)\<close>,
  \<open>getSuffix(pr, "", opts)\<close> is \<open>getSuffix(pr, undefined, opts)\<close>, and
  \<open>getSuffix(0, undefined, opts)\<close> is the empty string.
\<close>

theorem getSuffix_truthiness:
  "getSuffix (Some (Finite 0)) sha opts = getSuffix None sha opts
   \<and> getSuffix pr (Some '''') opts = getSuffix pr None opts
   \<and> getSuffix (Some (Finite 0)) None opts = ''''"
  by (simp add: getSuffix_def num_truthy_def str_truthy_def)

theorem getSuffix_truthiness_witness:
  "getSuffix (Some (Finite 0)) (Some ''1234567890abcdef'') \<lparr>repo = ''owner/repo''\<rparr> =
     getSuffix None (Some ''1234567890abcdef'') \<lparr>repo = ''owner/repo''\<rparr>
   \<and> getSuffix (Some (Finite 123)) (Some '''') \<lparr>repo = ''owner/repo''\<rparr> =
     getSuffix (Some (Finite 123)) None \<lparr>repo = ''owner/repo''\<rparr>
   \<and> getSuffix (Some (Finite 0)) None \<lparr>repo = ''owner/repo''\<rparr> = ''''"
  using getSuffix_truthiness [of "Some ''1234567890abcdef''" "\<lparr>repo = ''owner/repo''\<rparr>"
      "Some (Finite 123)"]
  by simp

text \<open>
  Claim C7, as the specification states it, fails where the number is 0 or the hash is
  empty: with the number 0 and a hash both defined the commit link is returned, not the
  pull-request link, and the result is empty although the number 0, or the empty hash,
  is defined.
\<close>

theorem getSuffix_zero_pr_counterexample:
  "getSuffix (Some (Finite 0)) (Some ''1234567890abcdef'') \<lparr>repo = ''owner/repo''\<rparr> =
     '' ([`1234567`](https://github.com/owner/repo/commit/1234567890abcdef))''
   \<and> getSuffix (Some (Finite 0)) None \<lparr>repo = ''owner/repo''\<rparr> = ''''
   \<and> getSuffix None (Some '''') \<lparr>repo = ''owner/repo''\<rparr> = ''''"
  by (simp add: getSuffix_def num_truthy_def str_truthy_def getShortSha_def getCommitUrl_def
      getRepoUrl_def)

text \<open>
  Claim C7, amended. A pull-request number other than 0 is always preferred: the result
  is the pull-request link, whatever the hash, with the number as the template literal
  writes it (its decimal digits below \<open>2 ^ 53\<close>). Without a number, or with the number 0,
  a non-empty hash gives the commit link with the first seven characters of the hash.
  The result is the empty string if and only if the number is absent or 0 and the hash
  is absent or empty.
\<close>

theorem getSuffix_precedence:
  "(pr \<noteq> Finite 0 \<longrightarrow> getSuffix (Some pr) sha opts =
      '' ([#'' @ Number_toString pr @ '']('' @ ''https://github.com/'' @ repo opts @ ''/pull/'' @
      Number_toString pr @ ''))'')
   \<and> (v < 2 ^ 53 \<longrightarrow> Number_toString (Finite v) = string_of_nat v)
   \<and> (h \<noteq> [] \<longrightarrow> p = None \<or> p = Some (Finite 0) \<longrightarrow> getSuffix p (Some h) opts =
      '' ([`'' @ take 7 h @ ''`]('' @ ''https://github.com/'' @ repo opts @ ''/commit/'' @ h @ ''))'')
   \<and> (getSuffix p s opts = '''' \<longleftrightarrow>
        (p = None \<or> p = Some (Finite 0)) \<and> (s = None \<or> s = Some ''''))"
proof (intro conjI)
  show "pr \<noteq> Finite 0 \<longrightarrow> getSuffix (Some pr) sha opts =
      '' ([#'' @ Number_toString pr @ '']('' @ ''https://github.com/'' @ repo opts @ ''/pull/'' @
      Number_toString pr @ ''))''"
    by (simp add: getSuffix_def num_truthy_def getPrUrl_def getRepoUrl_def)
  show "v < 2 ^ 53 \<longrightarrow> Number_toString (Finite v) = string_of_nat v"
    by (simp add: Number_toString_safe)
  show "h \<noteq> [] \<longrightarrow> p = None \<or> p = Some (Finite 0) \<longrightarrow> getSuffix p (Some h) opts =
      '' ([`'' @ take 7 h @ ''`]('' @ ''https://github.com/'' @ repo opts @ ''/commit/'' @ h @ ''))''"
    by (auto simp add: getSuffix_def num_truthy_def str_truthy_def getShortSha_def
        getCommitUrl_def getRepoUrl_def)
  show "getSuffix p s opts = '''' \<longleftrightarrow>
        (p = None \<or> p = Some (Finite 0)) \<and> (s = None \<or> s = Some '''')"
    by (auto simp add: getSuffix_def num_truthy_def str_truthy_def split: option.splits)
qed

theorem getSuffix_precedence_witness:
  "Finite 123 \<noteq> Finite 0 \<and> (123::nat) < 2 ^ 53 \<and> ''1234567890abcdef'' \<noteq> [] \<and>
   getSuffix (Some (Finite 123)) (Some ''1234567890abcdef'') \<lparr>repo = ''owner/repo''\<rparr> =
     '' ([#123](https://github.com/owner/repo/pull/123))''
   \<and> getSuffix None (Some ''1234567890abcdef'') \<lparr>repo = ''owner/repo''\<rparr> =
     '' ([`1234567`](https://github.com/owner/repo/commit/1234567890abcdef))''
   \<and> getSuffix None None \<lparr>repo = ''owner/repo''\<rparr> = ''''
   \<and> getSuffix (Some (Finite 1000000000000000000000)) None \<lparr>repo = ''owner/repo''\<rparr> =
     '' ([#1e+21](https://github.com/owner/repo/pull/1e+21))''"
proof -
  have big: "Number_toString (Finite 1000000000000000000000) = ''1e+21''"
    by (simp add: Number_toString_def shortest.simps to_double_def bitlen.simps
        string_of_nat.simps strip_zeros_def Let_def)
  have 1: "getSuffix (Some (Finite 1000000000000000000000)) None \<lparr>repo = ''owner/repo''\<rparr> =
     '' ([#1e+21](https://github.com/owner/repo/pull/1e+21))''"
    using getSuffix_precedence [where pr = "Finite 1000000000000000000000" and sha = None
        and opts = "\<lparr>repo = ''owner/repo''\<rparr>", THEN conjunct1]
    by (simp add: big)
  have small: "Number_toString (Finite 123) = ''123''"
    using getSuffix_precedence [where v = 123, THEN conjunct2, THEN conjunct1]
    by (simp add: string_of_nat.simps)
  have 2: "getSuffix (Some (Finite 123)) (Some ''1234567890abcdef'') \<lparr>repo = ''owner/repo''\<rparr> =
     '' ([#123](https://github.com/owner/repo/pull/123))''"
    using getSuffix_precedence [where pr = "Finite 123" and sha = "Some ''1234567890abcdef''"
        and opts = "\<lparr>repo = ''owner/repo''\<rparr>", THEN conjunct1]
    by (simp add: small)
  have 3: "getSuffix None (Some ''1234567890abcdef'') \<lparr>repo = ''owner/repo''\<rparr> =
     '' ([`1234567`](https://github.com/owner/repo/commit/1234567890abcdef))''"
    using getSuffix_precedence [where h = "''1234567890abcdef''" and p = None
        and opts = "\<lparr>repo = ''owner/repo''\<rparr>", THEN conjunct2, THEN conjunct2, THEN conjunct1]
    by simp
  have 4: "getSuffix None None \<lparr>repo = ''owner/repo''\<rparr> = ''''"
    using getSuffix_precedence [where p = None and s = None
        and opts = "\<lparr>repo = ''owner/repo''\<rparr>", THEN conjunct2, THEN conjunct2, THEN conjunct2]
    by simp
  from 1 2 3 4 show ?thesis
    by simp
qed

section \<open>The dependency release line\<close>

text \<open>
  Claim C1. With one dependency bump, valid options and no change record at all (so none
  that carries a commit hash), the header is \<open>- Updated dependencies []:\<close>: the brackets
  are written around an empty list, where the claim and the test
  \<open>handles updates without changesets\<close> of the repository expect
  \<open>- Updated dependencies:\<close>.
\<close>

theorem getDependencyReleaseLine_no_commit_header:
  "getDependencyReleaseLine []
     [\<lparr>name = ''pkg-1'', bump = Minor, oldVersion = ''0.9.0'', newVersion = ''1.0.0'',
       changeset_ids = [''changeset-1''], dir = ''packages/pkg-1''\<rparr>]
     (JObject [(''repo'', JString ''owner/repo'')]) =
   Inr ''- Updated dependencies []:\<newline>  - pkg-1@1.0.0''"
  by (simp add: getDependencyReleaseLine_def validate_def test_def exec_def no_flags_def
      ORG_REPO_REGEX_def seqs_def is_space_def char_eq_def filter_Boolean_def ms.simps)

section \<open>The release line\<close>

text \<open>
  Claim C2. With valid options and a repository that is found, the string returned by
  \<open>getReleaseLine\<close> is a line feed, \<open>- \<close>, the first line of the cleaned summary, the
  suffix, a line feed, and then the remaining lines of the cleaned summary, each with
  two spaces before it, joined by line feeds. When there are no remaining lines the
  string ends with the line feed after the opening line; when there are, every one of
  them follows a line feed and two spaces, and the string does not end with a line feed.
\<close>

theorem getReleaseLine_format:
  assumes "validate options = Inr opts" and "getRepository env = (ev, Inr rp)"
    and "split_nl (cleanSummary (summary cs)) = firstLine # restOfLines"
    and "suffix = getSuffix (getPrNumber (snd (resolveCommitMsg rp (commit cs)))) (commit cs) opts"
  shows "join ''\<newline>'' (firstLine # restOfLines) = cleanSummary (summary cs)
    \<and> snd (getReleaseLine env cs bt options) =
        Inr (''\<newline>- '' @ firstLine @ suffix @ ''\<newline>'' @
             join ''\<newline>'' (map indent restOfLines))
    \<and> (restOfLines = [] \<longrightarrow>
          snd (getReleaseLine env cs bt options) = Inr (''\<newline>- '' @ firstLine @ suffix @ ''\<newline>''))
    \<and> (restOfLines \<noteq> [] \<longrightarrow>
          snd (getReleaseLine env cs bt options) =
            Inr (''\<newline>- '' @ firstLine @ suffix @ concat (map (\<lambda>l. ''\<newline>  '' @ l) restOfLines))
          \<and> last (''\<newline>- '' @ firstLine @ suffix @ concat (map (\<lambda>l. ''\<newline>  '' @ l) restOfLines))
              \<noteq> CHR 0x0A)"
proof -
  let ?c = "cleanSummary (summary cs)"
  have out: "snd (getReleaseLine env cs bt options) =
        Inr (''\<newline>- '' @ firstLine @ suffix @ ''\<newline>'' @
             join ''\<newline>'' (map indent restOfLines))"
    using getReleaseLine_ok [OF assms(1,2), of cs bt] assms(3,4) by simp
  have lines: "join ''\<newline>'' (firstLine # restOfLines) = ?c"
    using join_split_nl [of ?c] assms(3) by simp
  have empty: "restOfLines = [] \<Longrightarrow>
      snd (getReleaseLine env cs bt options) = Inr (''\<newline>- '' @ firstLine @ suffix @ ''\<newline>'')"
    using out by simp
  have indent: "''\<newline>'' @ join ''\<newline>'' (map indent restOfLines) =
      concat (map (\<lambda>l. ''\<newline>  '' @ l) restOfLines)" if ne: "restOfLines \<noteq> []"
  proof -
    obtain l ls where "restOfLines = l # ls"
      using ne by (cases restOfLines) auto
    then show ?thesis
      by (simp add: join_Cons comp_def indent_def)
  qed
  have nonl: "last (''\<newline>- '' @ firstLine @ suffix @ concat (map (\<lambda>l. ''\<newline>  '' @ l) restOfLines))
      \<noteq> CHR 0x0A" if ne: "restOfLines \<noteq> []"
  proof -
    have c: "?c \<noteq> []"
    proof
      assume "?c = []"
      then have "split_nl ?c = [[]]" by simp
      with assms(3) ne show False by simp
    qed
    have t: "?c = trim (replace_all flags_im author_regex
       (replace_first flags_im commit_regex (replace_first flags_im pr_regex (summary cs))))"
      by (simp add: cleanSummary_def)
    have l: "last ?c \<noteq> CHR 0x0A"
      using c trim_nl unfolding t by blast
    have "last (split_nl ?c) \<noteq> [] \<and> last (last (split_nl ?c)) = last ?c"
      using last_split_nl [OF c l] .
    then have "last restOfLines \<noteq> []" "last (last restOfLines) = last ?c"
      using assms(3) ne by simp_all
    then show ?thesis
      using last_concat_indent [OF ne, of "''\<newline>- '' @ firstLine @ suffix"] l by simp
  qed
  show ?thesis
    using lines out empty indent nonl by simp
qed

theorem getReleaseLine_format_witness:
  "snd (getReleaseLine
     \<lparr>discover = Inr \<lparr>isShallow = Inr False,
        findCommit = (\<lambda>h. Inr (Some (Commit (Inr (Some ''Add new feature (#456)'')))))\<rparr>,
      GITHUB_ACTION = None\<rparr>
     \<lparr>changeset_id = ''changeset-1'',
      summary = ''Add new feature\<newline>With detailed description\<newline>And more details'',
      releases = [(''pkg'', Minor)], commit = Some ''abc1234567890''\<rparr>
     Minor (JObject [(''repo'', JString ''owner/repo'')])) =
   Inr (''\<newline>- Add new feature ([#456](https://github.com/owner/repo/pull/456))'' @
        ''\<newline>  With detailed description\<newline>  And more details'')"
proof -
  let ?rp = "\<lparr>isShallow = Inr False,
        findCommit = (\<lambda>h. Inr (Some (Commit (Inr (Some ''Add new feature (#456)'')))))\<rparr>"
  let ?env = "\<lparr>discover = Inr ?rp, GITHUB_ACTION = None\<rparr>"
  let ?cs = "\<lparr>changeset_id = ''changeset-1'',
      summary = ''Add new feature\<newline>With detailed description\<newline>And more details'',
      releases = [(''pkg'', Minor)], commit = Some ''abc1234567890''\<rparr>"
  let ?o = "JObject [(''repo'', JString ''owner/repo'')]"
  have 1: "validate ?o = Inr \<lparr>repo = ''owner/repo''\<rparr>"
    by (simp add: eval_defs)
  have 2: "getRepository ?env = ([CallDiscover, CallIsShallow], Inr ?rp)"
    by (simp add: getRepository_def)
  have 3: "split_nl (cleanSummary (summary ?cs)) =
      ''Add new feature'' # [''With detailed description'', ''And more details'']"
    by (simp add: eval_defs)
  have 4: "'' ([#456](https://github.com/owner/repo/pull/456))'' =
      getSuffix (getPrNumber (snd (resolveCommitMsg ?rp (commit ?cs)))) (commit ?cs)
        \<lparr>repo = ''owner/repo''\<rparr>"
    by (simp add: eval_defs)
  from getReleaseLine_format [OF 1 2 3 4, of Minor, THEN conjunct2, THEN conjunct1]
  show ?thesis
    by (simp add: indent_def)
qed

text \<open>
  Claim C3, as the specification states it, fails: the repository is looked for before
  the change record is looked at, so a change record without commit hash, with valid
  options, fails with the error of the discovery when no repository is found.
\<close>

theorem getReleaseLine_discovery_counterexample:
  "getReleaseLine
     \<lparr>discover = Inl (Error ''could not find repository''), GITHUB_ACTION = None\<rparr>
     \<lparr>changeset_id = ''changeset-1'', summary = ''Fix a bug'',
      releases = [(''pkg'', Patch)], commit = None\<rparr>
     Patch (JObject [(''repo'', JString ''owner/repo'')]) =
   ([CallDiscover], Inl (Error ''Repository.discover failed: could not find repository''))"
  by (simp add: getReleaseLine_def getRepository_def validate_def test_def exec_def no_flags_def
      ORG_REPO_REGEX_def seqs_def ms.simps char_eq_def is_space_def)

text \<open>
  Claim C3, amended. For a change record without commit hash (absent or empty) and valid
  options, \<open>getReleaseLine\<close> never looks a commit up: neither \<open>findCommit\<close> nor
  \<open>message\<close> is called. The repository is still looked for, whatever the change record
  is. The call fails, with the error of the discovery, exactly when
  \<open>Repository.discover\<close> or \<open>isShallow\<close> throws, and otherwise returns the release line
  without suffix.
\<close>

theorem getReleaseLine_without_commit:
  assumes "\<not> str_truthy (commit cs)" and "validate options = Inr opts"
  shows "(\<forall>h. CallFindCommit h \<notin> set (fst (getReleaseLine env cs bt options)))
    \<and> CallMessage \<notin> set (fst (getReleaseLine env cs bt options))
    \<and> CallDiscover \<in> set (fst (getReleaseLine env cs bt options))
    \<and> snd (getReleaseLine env cs bt options) =
        (case discover env of
           Inl e \<Rightarrow> Inl (Error (''Repository.discover failed: '' @ message e))
         | Inr rp \<Rightarrow>
             (case isShallow rp of
                Inl e \<Rightarrow> Inl (Error (''Repository.discover failed: '' @ message e))
              | Inr shallow \<Rightarrow>
                  Inr (''\<newline>- '' @ hd (split_nl (cleanSummary (summary cs))) @ ''\<newline>'' @
                       join ''\<newline>'' (map indent
                         (tl (split_nl (cleanSummary (summary cs))))))))"
proof -
  have r: "resolveCommitMsg rp (commit cs) = ([], None)" for rp
    using assms(1) by (simp add: resolveCommitMsg_def)
  have s: "getSuffix (getPrNumber None) (commit cs) opts = []"
    using assms(1) by (simp add: getSuffix_def getPrNumber_def num_truthy_def str_truthy_def)
  show ?thesis
  proof (cases "discover env")
    case (Inl e)
    then show ?thesis
      using assms(2) by (simp add: getReleaseLine_def getRepository_def)
  next
    case (Inr rp)
    show ?thesis
    proof (cases "isShallow rp")
      case (Inl e)
      with Inr show ?thesis
        using assms(2) by (simp add: getReleaseLine_def getRepository_def)
    next
      case inr: (Inr shallow)
      let ?ev = "[CallDiscover, CallIsShallow] @
          (if shallow then
             [ConsoleWarn (if str_truthy (GITHUB_ACTION env) then shallow_warning_action
                           else shallow_warning) None]
           else [])"
      have g: "getRepository env = (?ev, Inr rp)"
        using Inr inr by (simp add: getRepository_def)
      from getReleaseLine_ok [OF assms(2) g, of cs bt]
      have "getReleaseLine env cs bt options =
          (?ev, Inr (''\<newline>- '' @ hd (split_nl (cleanSummary (summary cs))) @ ''\<newline>'' @
                       join ''\<newline>'' (map indent
                         (tl (split_nl (cleanSummary (summary cs)))))))"
        by (simp add: r s)
      then show ?thesis
        using Inr inr by simp
    qed
  qed
qed

theorem getReleaseLine_without_commit_witness:
  "CallFindCommit ''abc1234567890'' \<notin> set (fst (getReleaseLine
     \<lparr>discover = Inr \<lparr>isShallow = Inr False,
        findCommit = (\<lambda>h. Inr (Some (Commit (Inr (Some ''Fix a bug (#123)'')))))\<rparr>,
      GITHUB_ACTION = None\<rparr>
     \<lparr>changeset_id = ''changeset-1'', summary = ''Fix a bug'',
      releases = [(''pkg'', Patch)], commit = None\<rparr>
     Patch (JObject [(''repo'', JString ''owner/repo'')])))
   \<and> snd (getReleaseLine
     \<lparr>discover = Inr \<lparr>isShallow = Inr False,
        findCommit = (\<lambda>h. Inr (Some (Commit (Inr (Some ''Fix a bug (#123)'')))))\<rparr>,
      GITHUB_ACTION = None\<rparr>
     \<lparr>changeset_id = ''changeset-1'', summary = ''Fix a bug'',
      releases = [(''pkg'', Patch)], commit = None\<rparr>
     Patch (JObject [(''repo'', JString ''owner/repo'')])) = Inr ''\<newline>- Fix a bug\<newline>''"
proof -
  let ?env = "\<lparr>discover = Inr \<lparr>isShallow = Inr False,
        findCommit = (\<lambda>h. Inr (Some (Commit (Inr (Some ''Fix a bug (#123)'')))))\<rparr>,
      GITHUB_ACTION = None\<rparr>"
  let ?cs = "\<lparr>changeset_id = ''changeset-1'', summary = ''Fix a bug'',
      releases = [(''pkg'', Patch)], commit = None\<rparr>"
  let ?o = "JObject [(''repo'', JString ''owner/repo'')]"
  have 1: "\<not> str_truthy (commit ?cs)"
    by (simp add: str_truthy_def)
  have 2: "validate ?o = Inr \<lparr>repo = ''owner/repo''\<rparr>"
    by (simp add: eval_defs)
  have 3: "split_nl (cleanSummary ''Fix a bug'') = [''Fix a bug'']"
    by (simp add: eval_defs)
  from getReleaseLine_without_commit [OF 1 2, of ?env Patch] show ?thesis
    by (simp add: 3 indent_def)
qed

text \<open>
  Claim C4. For a change record with a commit hash, valid options and a repository that
  is found: when \<open>findCommit\<close> throws, \<open>getReleaseLine\<close> does not fail. It writes the
  warning \<open>Failed to get commit message for <hash>:\<close> with what was thrown, goes on
  without commit message, and returns the release line with the commit link as suffix:
  the same string as when the commit is found and \<open>getPrNumber\<close> finds no pull-request
  number in its message.
\<close>

theorem getReleaseLine_lookup_failure:
  assumes "validate options = Inr opts"
    and "commit cs = Some h" and "h \<noteq> []"
    and "getRepository env = (ev, Inr rp)" and "findCommit rp h = Inl cause"
    and "getRepository env' = (ev', Inr rp')"
    and "findCommit rp' h = Inr (Some (Commit (Inr (Some m))))"
    and "getPrNumber (Some m) = None"
  shows "getReleaseLine env cs bt options =
      (ev @ [CallFindCommit h,
             ConsoleWarn (''Failed to get commit message for '' @ h @ '':'') (Some cause)],
       Inr (''\<newline>- '' @ hd (split_nl (cleanSummary (summary cs))) @
            '' ([`'' @ take 7 h @ ''`](https://github.com/'' @ repo opts @ ''/commit/'' @ h @ ''))'' @
            ''\<newline>'' @
            join ''\<newline>'' (map indent (tl (split_nl (cleanSummary (summary cs)))))))
    \<and> snd (getReleaseLine env' cs bt options) = snd (getReleaseLine env cs bt options)"
proof -
  have t: "str_truthy (commit cs)" "the (commit cs) = h"
    using assms(2,3) by (simp_all add: str_truthy_def)
  have r: "resolveCommitMsg rp (commit cs) =
      ([CallFindCommit h,
        ConsoleWarn (''Failed to get commit message for '' @ h @ '':'') (Some cause)], None)"
    using t assms(5) by (simp add: resolveCommitMsg_def)
  have r': "snd (resolveCommitMsg rp' (commit cs)) =
      (if str_truthy (Some m) then Some (trim (hd (split_nl m))) else None)"
    using t assms(7) by (simp add: resolveCommitMsg_def)
  have n: "getPrNumber (snd (resolveCommitMsg rp' (commit cs))) = None"
    unfolding r' getPrNumber_first_line by (rule assms(8))
  have pn: "getPrNumber None = None"
    by (simp add: getPrNumber_def str_truthy_def)
  have s: "getSuffix None (commit cs) opts =
      '' ([`'' @ take 7 h @ ''`](https://github.com/'' @ repo opts @ ''/commit/'' @ h @ ''))''"
    using t by (simp add: getSuffix_def num_truthy_def getShortSha_def getCommitUrl_def
        getRepoUrl_def)
  have 1: "getReleaseLine env cs bt options =
      (ev @ [CallFindCommit h,
             ConsoleWarn (''Failed to get commit message for '' @ h @ '':'') (Some cause)],
       Inr (''\<newline>- '' @ hd (split_nl (cleanSummary (summary cs))) @
            '' ([`'' @ take 7 h @ ''`](https://github.com/'' @ repo opts @ ''/commit/'' @ h @ ''))'' @
            ''\<newline>'' @
            join ''\<newline>'' (map indent (tl (split_nl (cleanSummary (summary cs)))))))"
    unfolding getReleaseLine_ok [OF assms(1,4)] r fst_conv snd_conv pn s
    by (simp only: append_assoc)
  have 2: "snd (getReleaseLine env' cs bt options) =
       Inr (''\<newline>- '' @ hd (split_nl (cleanSummary (summary cs))) @
            '' ([`'' @ take 7 h @ ''`](https://github.com/'' @ repo opts @ ''/commit/'' @ h @ ''))'' @
            ''\<newline>'' @
            join ''\<newline>'' (map indent (tl (split_nl (cleanSummary (summary cs))))))"
    unfolding getReleaseLine_ok [OF assms(1,6)] snd_conv n s
    by (simp only: append_assoc)
  show ?thesis
    unfolding 1 2 by simp
qed

theorem getReleaseLine_lookup_failure_witness:
  "getReleaseLine
     \<lparr>discover = Inr \<lparr>isShallow = Inr False, findCommit = (\<lambda>h. Inl (Error ''Git error''))\<rparr>,
      GITHUB_ACTION = None\<rparr>
     \<lparr>changeset_id = ''changeset-1'', summary = ''Fix a bug'',
      releases = [(''pkg'', Patch)], commit = Some ''abc1234567890''\<rparr>
     Patch (JObject [(''repo'', JString ''owner/repo'')]) =
   ([CallDiscover, CallIsShallow, CallFindCommit ''abc1234567890'',
     ConsoleWarn ''Failed to get commit message for abc1234567890:'' (Some (Error ''Git error''))],
    Inr ''\<newline>- Fix a bug ([`abc1234`](https://github.com/owner/repo/commit/abc1234567890))\<newline>'')
   \<and> snd (getReleaseLine
     \<lparr>discover = Inr \<lparr>isShallow = Inr False,
        findCommit = (\<lambda>h. Inr (Some (Commit (Inr (Some ''Fix a bug'')))))\<rparr>,
      GITHUB_ACTION = None\<rparr>
     \<lparr>changeset_id = ''changeset-1'', summary = ''Fix a bug'',
      releases = [(''pkg'', Patch)], commit = Some ''abc1234567890''\<rparr>
     Patch (JObject [(''repo'', JString ''owner/repo'')])) =
   Inr ''\<newline>- Fix a bug ([`abc1234`](https://github.com/owner/repo/commit/abc1234567890))\<newline>''"
proof -
  let ?rp = "\<lparr>isShallow = Inr False, findCommit = (\<lambda>h. Inl (Error ''Git error''))\<rparr>"
  let ?rp' = "\<lparr>isShallow = Inr False,
        findCommit = (\<lambda>h. Inr (Some (Commit (Inr (Some ''Fix a bug'')))))\<rparr>"
  let ?env = "\<lparr>discover = Inr ?rp, GITHUB_ACTION = None\<rparr>"
  let ?env' = "\<lparr>discover = Inr ?rp', GITHUB_ACTION = None\<rparr>"
  let ?cs = "\<lparr>changeset_id = ''changeset-1'', summary = ''Fix a bug'',
      releases = [(''pkg'', Patch)], commit = Some ''abc1234567890''\<rparr>"
  let ?o = "JObject [(''repo'', JString ''owner/repo'')]"
  have 1: "validate ?o = Inr \<lparr>repo = ''owner/repo''\<rparr>"
    by (simp add: eval_defs)
  have 2: "commit ?cs = Some ''abc1234567890''" and 3: "''abc1234567890'' \<noteq> []"
    by simp_all
  have 4: "getRepository ?env = ([CallDiscover, CallIsShallow], Inr ?rp)"
    by (simp add: getRepository_def)
  have 5: "findCommit ?rp ''abc1234567890'' = Inl (Error ''Git error'')"
    by simp
  have 6: "getRepository ?env' = ([CallDiscover, CallIsShallow], Inr ?rp')"
    by (simp add: getRepository_def)
  have 7: "findCommit ?rp' ''abc1234567890'' = Inr (Some (Commit (Inr (Some ''Fix a bug''))))"
    by simp
  have 8: "getPrNumber (Some ''Fix a bug'') = None"
    by (simp add: eval_defs)
  have 9: "split_nl (cleanSummary ''Fix a bug'') = [''Fix a bug'']"
    by (simp add: eval_defs)
  from getReleaseLine_lookup_failure [OF 1 2 3 4 5 6 7 8, of Patch] show ?thesis
    by (simp add: 9)
qed

section \<open>The summary cleaner\<close>

text \<open>
  Claim C9, as the specification states it, fails: what is removed is the prefix, not the
  line that begins with it. The rest of the line stays, as the tests of the repository
  expect.
\<close>

theorem cleanSummary_prefix_counterexample:
  "cleanSummary ''PR: #123 Add new feature'' = ''Add new feature''
   \<and> cleanSummary ''PR: #123 Add new feature'' \<noteq> ''''"
  by (simp add: eval_defs)

text \<open>
  Claim C9, amended. \<open>cleanSummary\<close> removes the first occurrence of a \<open>pr\<close>, \<open>pull\<close> or
  \<open>pull request\<close> prefix, then the first occurrence of a \<open>commit\<close> prefix, then every
  occurrence of an \<open>author\<close> or \<open>user\<close> prefix, and trims the result. An occurrence
  starts at the start of a line and is made of optional white space, the keyword in any
  letter case, a colon, optional white space, an optional \<open>#\<close> (after \<open>pr\<close>) or \<open>@\<close>
  (after \<open>author\<close>), and the longest token. Only the occurrence is removed: the text
  before and after it, the rest of its line included, is kept. When no prefix occurs the
  result is the trimmed summary.
\<close>

theorem cleanSummary_spec:
  "(\<exists>s1 s2 s3. removes_first pr_prefix is_digit s s1 \<and>
      removes_first commit_prefix (\<lambda>c. \<not> is_space c) s1 s2 \<and>
      removes_each author_prefix (\<lambda>c. \<not> is_space c) [] s2 s3 \<and> cleanSummary s = trim s3)
   \<and> (\<not> (\<exists>pre m post. occurrence pr_prefix [] s pre m post) \<and>
       \<not> (\<exists>pre m post. occurrence commit_prefix [] s pre m post) \<and>
       \<not> (\<exists>pre m post. occurrence author_prefix [] s pre m post)
       \<longrightarrow> cleanSummary s = trim s)"
  using cleanSummary_removes [of s] cleanSummary_unchanged [of s] by blast

theorem cleanSummary_spec_witness:
  "cleanSummary ''  This is a plain summary  '' = ''This is a plain summary''"
proof -
  let ?s = "''  This is a plain summary  ''"
  have 1: "\<not> (\<exists>pre m post. occurrence pr_prefix [] ?s pre m post)"
    by (rule no_occurrence_exec [OF implements_pr]) (simp add: eval_defs)
  have 2: "\<not> (\<exists>pre m post. occurrence commit_prefix [] ?s pre m post)"
    by (rule no_occurrence_exec [OF implements_commit]) (simp add: eval_defs)
  have 3: "\<not> (\<exists>pre m post. occurrence author_prefix [] ?s pre m post)"
    by (rule no_occurrence_exec [OF implements_author]) (simp add: eval_defs)
  have "trim ?s = ''This is a plain summary''"
    by (simp add: trim_def is_space_def)
  with cleanSummary_spec [of ?s, THEN conjunct2] 1 2 3 show ?thesis
    by simp
qed

text \<open>
  Claim C5, as the specification states it, fails: the first pass removes only the first
  \<open>pr\<close> prefix, a second pass removes the next one.
\<close>

theorem cleanSummary_not_idempotent_counterexample:
  "cleanSummary (cleanSummary ''pr: #1\<newline>pr: #2'') \<noteq> cleanSummary ''pr: #1\<newline>pr: #2''"
proof -
  have "cleanSummary ''pr: #1\<newline>pr: #2'' = ''pr: #2''"
    by (simp add: eval_defs)
  moreover have "cleanSummary ''pr: #2'' = ''''"
    by (simp add: eval_defs)
  ultimately show ?thesis by simp
qed

text \<open>
  Claim C5, amended. Cleaning a cleaned summary again changes nothing if and only if the
  cleaned summary contains no occurrence of a \<open>pr\<close>, \<open>pull\<close>, \<open>pull request\<close>,
  \<open>commit\<close>, \<open>author\<close> or \<open>user\<close> prefix.
\<close>

theorem cleanSummary_idempotent_iff:
  "cleanSummary (cleanSummary s) = cleanSummary s \<longleftrightarrow>
     \<not> (\<exists>pre m post. occurrence pr_prefix [] (cleanSummary s) pre m post) \<and>
     \<not> (\<exists>pre m post. occurrence commit_prefix [] (cleanSummary s) pre m post) \<and>
     \<not> (\<exists>pre m post. occurrence author_prefix [] (cleanSummary s) pre m post)"
  (is "?L \<longleftrightarrow> ?R")
proof
  assume ?L
  show ?R
  proof (rule ccontr)
    assume "\<not> ?R"
    then have "length (cleanSummary (cleanSummary s)) < length (cleanSummary s)"
      by (intro cleanSummary_shorter) blast
    with \<open>?L\<close> show False by simp
  qed
next
  assume ?R
  then have "cleanSummary (cleanSummary s) = trim (cleanSummary s)"
    by (intro cleanSummary_unchanged) blast+
  also have "\<dots> = cleanSummary s"
    unfolding cleanSummary_def by (rule trim_idem)
  finally show ?L .
qed

theorem cleanSummary_idempotent_iff_witness:
  "cleanSummary (cleanSummary ''pr: #123\<newline>commit: abc123\<newline>author: @user\<newline>Add feature'') =
   cleanSummary ''pr: #123\<newline>commit: abc123\<newline>author: @user\<newline>Add feature''"
proof -
  let ?s = "''pr: #123\<newline>commit: abc123\<newline>author: @user\<newline>Add feature''"
  have c: "cleanSummary ?s = ''Add feature''"
    by (simp add: eval_defs)
  have 1: "\<not> (\<exists>pre m post. occurrence pr_prefix [] ''Add feature'' pre m post)"
    by (rule no_occurrence_exec [OF implements_pr]) (simp add: eval_defs)
  have 2: "\<not> (\<exists>pre m post. occurrence commit_prefix [] ''Add feature'' pre m post)"
    by (rule no_occurrence_exec [OF implements_commit]) (simp add: eval_defs)
  have 3: "\<not> (\<exists>pre m post. occurrence author_prefix [] ''Add feature'' pre m post)"
    by (rule no_occurrence_exec [OF implements_author]) (simp add: eval_defs)
  from 1 2 3 have
    "\<not> (\<exists>pre m post. occurrence pr_prefix [] (cleanSummary ?s) pre m post) \<and>
     \<not> (\<exists>pre m post. occurrence commit_prefix [] (cleanSummary ?s) pre m post) \<and>
     \<not> (\<exists>pre m post. occurrence author_prefix [] (cleanSummary ?s) pre m post)"
    unfolding c by blast
  then show ?thesis
    by (rule cleanSummary_idempotent_iff [THEN iffD2])
qed

end
